theory Spec2Isabelle
  imports Main "HOL-Library.Word"
begin

unbundle bit_operations_syntax

section \<open>Machine types and constants\<close>

text \<open>
  The firmware runs on an MSP430: \<open>uint8\<close> is an 8-bit unsigned value, \<open>int\<close> is
  16 bits wide, \<open>long\<close> is 32 bits wide, and plain \<open>char\<close> is unsigned.
\<close>

type_synonym uint8 = "8 word"
type_synonym uint16 = "16 word"
type_synonym uint32 = "32 word"

text \<open>
  What a C function of the firmware can do besides returning: wait forever for a clock
  edge that the peer never produces, touch an array outside its bounds, or use a local
  variable that no path has assigned.
\<close>

datatype fault = Hangs | OutOfBounds | Uninitialised

subsection \<open>comm.h: status flags and return codes\<close>

definition COMM_RUNNING :: uint8 where "COMM_RUNNING = 0x01"
definition COMM_TX_BUSY :: uint8 where "COMM_TX_BUSY = 0x02"
definition COMM_RX_BUSY :: uint8 where "COMM_RX_BUSY = 0x04"
definition COMM_PARITY_ERR :: uint8 where "COMM_PARITY_ERR = 0x08"
definition COMM_START_CONDITION :: uint8 where "COMM_START_CONDITION = 0x10"

definition SHUTDOWN_BIT :: uint8 where "SHUTDOWN_BIT = 0x01"

definition COMM_OK :: uint8 where "COMM_OK = 0x00"
definition COMM_BUFFER_UNDERFLOW :: uint8 where "COMM_BUFFER_UNDERFLOW = 0x01"
definition COMM_BUFFER_OVERFLOW :: uint8 where "COMM_BUFFER_OVERFLOW = 0x02"
definition COMM_ERROR :: uint8 where "COMM_ERROR = 0x04"
definition COMM_ACK_ERR :: uint8 where "COMM_ACK_ERR = 0x10"

text \<open>
  \<open>SDA_PIN\<close> is \<open>BIT1\<close> in comm.h ("currently 1.1"); \<open>BIT1\<close> itself comes from the
  vendor header msp430x23x.h, where it is the mask 0x0002.
\<close>

definition SDA_PIN :: uint8 where "SDA_PIN = 0x02"

subsection \<open>msg.h and crc.h\<close>

definition MAXMSGLEN :: uint8 where "MAXMSGLEN = 0x40"
definition SP_HEADERSIZE :: uint8 where "SP_HEADERSIZE = 4"
definition SP_DATAMESSAGE_VERSION :: uint8 where "SP_DATAMESSAGE_VERSION = 120"

definition MSG_TYP_IDX :: nat where "MSG_TYP_IDX = 0"
definition MSG_LEN_IDX :: nat where "MSG_LEN_IDX = 1"
definition MSG_VER_IDX :: nat where "MSG_VER_IDX = 2"
definition MSG_FLAGS_IDX :: nat where "MSG_FLAGS_IDX = 3"
definition MSG_PAYLD_IDX :: nat where "MSG_PAYLD_IDX = 4"

definition COMMAND_PKT :: uint8 where "COMMAND_PKT = 0x01"
definition REPORT_DATA :: uint8 where "REPORT_DATA = 0x02"
definition PROGRAM_CODE :: uint8 where "PROGRAM_CODE = 0x03"
definition REQUEST_DATA :: uint8 where "REQUEST_DATA = 0x04"
definition REQUEST_LABEL :: uint8 where "REQUEST_LABEL = 0x05"
definition ID_PKT :: uint8 where "ID_PKT = 0x06"
definition CONFIRM_COMMAND :: uint8 where "CONFIRM_COMMAND = 0x07"
definition REPORT_ERROR :: uint8 where "REPORT_ERROR = 0x08"
definition REQUEST_BSL_PW :: uint8 where "REQUEST_BSL_PW = 0x09"
definition INTERROGATE :: uint8 where "INTERROGATE = 0x0A"
definition SET_SERIALNUM :: uint8 where "SET_SERIALNUM = 0x0B"
definition COMMAND_SENSOR_TYPE :: uint8 where "COMMAND_SENSOR_TYPE = 0x0C"
definition REQUEST_SENSOR_TYPE :: uint8 where "REQUEST_SENSOR_TYPE = 0x0D"

definition CRC_FOR_MSG_TO_SEND :: uint8 where "CRC_FOR_MSG_TO_SEND = 1"
definition CRC_FOR_MSG_TO_REC :: uint8 where "CRC_FOR_MSG_TO_REC = 0"
definition CRC_SZ :: uint8 where "CRC_SZ = 2"

section \<open>comm.c: the two-wire link to the CP board\<close>

text \<open>
  The globals of comm.c, with the output register of the data line. The receive buffer
  is declared with \<open>MAXMSGLEN\<close> elements; the model keeps it as a list and makes every
  access outside the list a fault.
\<close>

record comm_state =
  g_ucCOMM_Flags :: uint8
  g_ucaRXBuffer :: "uint8 list"
  g_ucRXBufferIndex :: uint8
  P1OUT :: uint8

text \<open>
  The clock line is driven by the peer. The model abstracts the clock-edge polling loops
  of the byte routines as follows: the wire is the list of values that \<open>P1IN\<close> shows at
  the successive moments where the code samples the data line; while the list lasts the
  peer keeps clocking; once it is exhausted the next wait for a clock edge never ends.
\<close>

type_synonym wire = "uint8 list"

subsection \<open>ucCOMM_ReceiveByte\<close>

text \<open>
  The sampling loop \<open>do { ... } while (--ucRXBitsLeft != 0)\<close> runs eight times from
  \<open>ucRXBitsLeft = 8\<close>; its counter is the first argument. Each round shifts the byte
  right and writes the sampled level into bit 7, counting the ones in \<open>ucParityBit\<close>.
\<close>

fun rx_sample_loop :: "nat \<Rightarrow> wire \<Rightarrow> uint8 \<Rightarrow> uint8 \<Rightarrow> fault + (uint8 \<times> uint8 \<times> wire)" where
  "rx_sample_loop 0 w ucRXByte ucParityBit = Inr (ucRXByte, ucParityBit, w)"
| "rx_sample_loop (Suc n) [] ucRXByte ucParityBit = Inl Hangs"
| "rx_sample_loop (Suc n) (x # w) ucRXByte ucParityBit =
     (if x AND SDA_PIN \<noteq> 0
      then rx_sample_loop n w (drop_bit 1 ucRXByte OR 0x80) (ucParityBit + 1)
      else rx_sample_loop n w (drop_bit 1 ucRXByte AND NOT 0x80) ucParityBit)"

text \<open>
  \<open>ucRXByte\<close> is not initialised in the source; eight shifts push every initial bit
  out of the byte, so the model starts it at 0.
\<close>

definition ucCOMM_ReceiveByte :: "wire \<Rightarrow> comm_state \<Rightarrow> fault + (uint8 \<times> wire \<times> comm_state)" where
  "ucCOMM_ReceiveByte w s =
     (if g_ucCOMM_Flags s AND COMM_RX_BUSY \<noteq> 0 then Inr (COMM_ERROR, w, s)
      else
        (case rx_sample_loop 8 w 0 0 of
           Inl f \<Rightarrow> Inl f
         | Inr (ucRXByte, cnt, w1) \<Rightarrow>
             (case w1 of
                [] \<Rightarrow> Inl Hangs
              | x # w2 \<Rightarrow>
                  let ucRxParityBit = (if x AND SDA_PIN \<noteq> 0 then 1 else 0 :: uint8);
                      ucParityBit = cnt mod 2;
                      out = (if ucParityBit = ucRxParityBit
                             then P1OUT s AND NOT SDA_PIN else P1OUT s OR SDA_PIN);
                      fl0 = (g_ucCOMM_Flags s OR COMM_RX_BUSY) AND NOT COMM_RX_BUSY;
                      fl = (if ucParityBit \<noteq> ucRxParityBit then fl0 OR COMM_PARITY_ERR else fl0);
                      i = unat (g_ucRXBufferIndex s)
                  in if i < length (g_ucaRXBuffer s)
                     then Inr (COMM_OK, w2,
                            s\<lparr>g_ucCOMM_Flags := fl,
                              g_ucaRXBuffer := (g_ucaRXBuffer s)[i := ucRXByte],
                              g_ucRXBufferIndex := g_ucRXBufferIndex s + 1,
                              P1OUT := out\<rparr>)
                     else Inl OutOfBounds)))"

lemma rx_sample_loop_shrinks:
  "rx_sample_loop n w b p = Inr (b', p', w') \<Longrightarrow> length w' + n = length w"
proof (induction n w b p rule: rx_sample_loop.induct)
  case (1 w b p)
  then show ?case by simp
next
  case (2 n b p)
  then show ?case by simp
next
  case (3 n x w b p)
  then show ?case by (auto split: if_splits)
qed

lemma ucCOMM_ReceiveByte_shrinks:
  assumes "ucCOMM_ReceiveByte w s = Inr (rc, w', s')" and "rc = COMM_OK"
  shows "length w' < length w"
proof -
  from assms have nb: "g_ucCOMM_Flags s AND COMM_RX_BUSY = 0"
    by (auto simp: ucCOMM_ReceiveByte_def COMM_ERROR_def COMM_OK_def split: if_splits)
  from assms nb obtain b p w1 x where
    l: "rx_sample_loop 8 w 0 0 = Inr (b, p, w1)" and w1: "w1 = x # w'"
    by (auto simp: ucCOMM_ReceiveByte_def Let_def split: sum.splits list.splits if_splits)
  from rx_sample_loop_shrinks [OF l] w1 show ?thesis by simp
qed

subsection \<open>ucCOMM_WaitForMessage\<close>

text \<open>
  The \<open>do ... while (g_ucRXBufferIndex != ucRXMessageSize)\<close> loop; \<open>ucRXMessageSize\<close> is
  the third argument. The sum \<open>g_ucaRXBuffer[MSG_LEN_IDX] + CRC_SZ\<close> is stored into a
  \<open>uint8\<close>, so it wraps at 256.
\<close>

function wait_loop :: "wire \<Rightarrow> comm_state \<Rightarrow> uint8 \<Rightarrow> fault + (uint8 \<times> wire \<times> comm_state)" where
  "wait_loop w s ucRXMessageSize =
     (case ucCOMM_ReceiveByte w s of
        Inl f \<Rightarrow> Inl f
      | Inr (rc, w', s') \<Rightarrow>
          if rc \<noteq> COMM_OK then Inr (COMM_ERROR, w', s')
          else if g_ucRXBufferIndex s' = SP_HEADERSIZE
          then (if MSG_LEN_IDX < length (g_ucaRXBuffer s')
                then (let sz = g_ucaRXBuffer s' ! MSG_LEN_IDX + CRC_SZ
                      in if sz > MAXMSGLEN \<or> sz < SP_HEADERSIZE then Inr (COMM_ERROR, w', s')
                         else if g_ucRXBufferIndex s' \<noteq> sz then wait_loop w' s' sz
                         else if g_ucRXBufferIndex s' = 0 then Inr (COMM_ERROR, w', s')
                         else Inr (0, w', s'))
                else Inl OutOfBounds)
          else if g_ucRXBufferIndex s' \<noteq> ucRXMessageSize then wait_loop w' s' ucRXMessageSize
          else if g_ucRXBufferIndex s' = 0 then Inr (COMM_ERROR, w', s')
          else Inr (0, w', s'))"
  by pat_completeness auto
termination
  by (relation "measure (\<lambda>(w, s, n). length w)")
     (auto dest: ucCOMM_ReceiveByte_shrinks)

declare wait_loop.simps [simp del]

definition ucCOMM_WaitForMessage :: "wire \<Rightarrow> comm_state \<Rightarrow> fault + (uint8 \<times> wire \<times> comm_state)" where
  "ucCOMM_WaitForMessage w s = wait_loop w s SP_HEADERSIZE"

subsection \<open>ucCOMM_SendByte\<close>

text \<open>
  The parity loop \<open>for (ucBitIdx = 0; ucBitIdx < 8; ucBitIdx++)\<close>; the counter stays
  below 9, so a \<open>nat\<close> holds it.
\<close>

function tx_parity_loop :: "uint8 \<Rightarrow> nat \<Rightarrow> uint8 \<Rightarrow> uint8" where
  "tx_parity_loop ucTXChar ucBitIdx ucParityBit =
     (if ucBitIdx < 8
      then tx_parity_loop ucTXChar (ucBitIdx + 1)
             (ucParityBit XOR (drop_bit ucBitIdx ucTXChar AND 0x01))
      else ucParityBit)"
  by pat_completeness auto
termination
  by (relation "measure (\<lambda>(c, i, p). 8 - i)") auto

declare tx_parity_loop.simps [simp del]

text \<open>
  The transmission loop \<open>do { ... } while (ucTXBitsLeft != 0)\<close> from
  \<open>ucTXBitsLeft = 9\<close>: each round drives the lowest bit of \<open>uiTXChar\<close> on the data
  line and shifts. The last argument collects the levels driven, first bit first.
\<close>

fun tx_bit_loop :: "nat \<Rightarrow> uint16 \<Rightarrow> uint8 \<Rightarrow> bool list \<Rightarrow> uint8 \<times> bool list" where
  "tx_bit_loop 0 uiTXChar out driven = (out, driven)"
| "tx_bit_loop (Suc n) uiTXChar out driven =
     tx_bit_loop n (drop_bit 1 uiTXChar)
       (if uiTXChar AND 0x01 \<noteq> 0 then out OR SDA_PIN else out AND NOT SDA_PIN)
       (driven @ [uiTXChar AND 0x01 \<noteq> 0])"

text \<open>
  The result holds the return code, the levels driven on the data line, the rest of the
  wire and the new state. The single sample taken is the ACK bit.
\<close>

definition ucCOMM_SendByte ::
  "uint8 \<Rightarrow> wire \<Rightarrow> comm_state \<Rightarrow> fault + (uint8 \<times> bool list \<times> wire \<times> comm_state)" where
  "ucCOMM_SendByte ucTXChar w s =
     (if g_ucCOMM_Flags s AND COMM_TX_BUSY \<noteq> 0 then Inr (COMM_ERROR, [], w, s)
      else
        let ucParityBit = tx_parity_loop ucTXChar 0 0;
            uiTXChar = (ucast ucTXChar :: uint16) OR push_bit 8 (ucast ucParityBit);
            (out, driven) = tx_bit_loop 9 uiTXChar (P1OUT s) []
        in (case w of
              [] \<Rightarrow> Inl Hangs
            | x # w' \<Rightarrow>
                let ucAck = x AND SDA_PIN;
                    s' = s\<lparr>g_ucCOMM_Flags := (g_ucCOMM_Flags s OR COMM_TX_BUSY) AND NOT COMM_TX_BUSY,
                           P1OUT := out\<rparr>
                in if ucAck = 1 then Inr (COMM_ACK_ERR, driven, w', s')
                   else Inr (COMM_OK, driven, w', s')))"

subsection \<open>ucCRC16_compute_msg_CRC\<close>

text \<open>
  Modelled from the spec: \<open>ucCRC16_compute_msg_CRC\<close>, whose body (crc.c) is not among
  the sources; only its prototype in crc.h is. The specification describes a 16-bit CRC
  computed over header and payload (the message without its trailer), with one routine
  that in send mode writes the CRC into the two trailer bytes and in receive mode reports
  whether the recomputed CRC matches the trailer (1 = CRC is OK, 0 = CRC mismatch, as
  crc.h says). The callers pass the length with the trailer included. The checksum itself
  is the parameter \<open>crc\<close>; the trailer holds its high byte first.
\<close>

definition ucCRC16_compute_msg_CRC ::
  "(uint8 list \<Rightarrow> uint16) \<Rightarrow> uint8 \<Rightarrow> uint8 list \<Rightarrow> uint8 \<Rightarrow> fault + (uint8 \<times> uint8 list)" where
  "ucCRC16_compute_msg_CRC crc ucMsgFlag ucMSGBuff ucLength =
     (let n = unat ucLength
      in if n < unat CRC_SZ \<or> length ucMSGBuff < n then Inl OutOfBounds
         else
           let c = crc (take (n - 2) ucMSGBuff);
               hi = (ucast (drop_bit 8 c) :: uint8);
               lo = (ucast c :: uint8)
           in if ucMsgFlag = CRC_FOR_MSG_TO_SEND
              then Inr (1, ucMSGBuff[n - 2 := hi, n - 1 := lo])
              else Inr (if ucMSGBuff ! (n - 2) = hi \<and> ucMSGBuff ! (n - 1) = lo then 1 else 0,
                        ucMSGBuff))"

text \<open>
  Modelled from the spec: the checksum as a cyclic redundancy check in the usual bitwise
  form, most significant bit first, over a generator polynomial \<open>poly\<close> (the
  coefficients below \<open>x^16\<close>) from a start value \<open>init\<close>. The specification fixes
  neither; a generator polynomial has the constant term 1, so \<open>poly\<close> is odd.
\<close>

definition crc16_bit :: "uint16 \<Rightarrow> uint16 \<Rightarrow> uint16" where
  "crc16_bit poly c = (if bit c 15 then push_bit 1 c XOR poly else push_bit 1 c)"

fun crc16_bits :: "nat \<Rightarrow> uint16 \<Rightarrow> uint16 \<Rightarrow> uint16" where
  "crc16_bits 0 poly c = c"
| "crc16_bits (Suc n) poly c = crc16_bits n poly (crc16_bit poly c)"

definition crc16_byte :: "uint16 \<Rightarrow> uint16 \<Rightarrow> uint8 \<Rightarrow> uint16" where
  "crc16_byte poly c b = crc16_bits 8 poly (c XOR push_bit 8 (ucast b))"

definition crc16 :: "uint16 \<Rightarrow> uint16 \<Rightarrow> uint8 list \<Rightarrow> uint16" where
  "crc16 poly init bs = foldl (crc16_byte poly) init bs"

subsection \<open>vCOMM_SendMessage\<close>

text \<open>
  The \<open>for\<close> loop of \<open>vCOMM_SendMessage\<close>. The byte routine is the parameter
  \<open>sendbyte\<close>, acting on an environment \<open>'e\<close>; \<open>p\<close> is the offset that \<open>pBuff\<close> has
  reached (\<open>*pBuff++\<close> advances it at every call, whatever the call returns). The
  counters are \<open>uint8\<close> and wrap as in the source.
\<close>

lemma send_loop_err_measure: "ec + 1 \<noteq> (5 :: uint8) \<Longrightarrow> unat (4 - (ec + 1)) < unat (4 - ec)"
proof -
  assume a: "ec + 1 \<noteq> 5"
  have nz: "4 - ec \<noteq> 0"
  proof
    assume "4 - ec = 0"
    then have "ec = 4" by simp
    with a show False by simp
  qed
  then have "unat (4 - ec - 1) = unat (4 - ec) - 1" by (rule unat_minus_one)
  moreover from nz have "0 < unat (4 - ec)" by (simp add: unat_gt_0)
  moreover have "4 - (ec + 1) = 4 - ec - 1" by simp
  ultimately show ?thesis by simp
qed

lemma send_loop_cnt_measure: "lc < (n :: uint8) \<Longrightarrow> unat n - unat (lc + 1) < unat n - unat lc"
proof -
  assume "lc < n"
  then have l: "unat lc < unat n" by (simp add: word_less_nat_alt)
  moreover have "unat n < 256" using unsigned_less [of n] by simp
  ultimately have "unat lc + 1 < 256" by simp
  then have "unat (lc + 1) = unat lc + 1" by (simp add: unat_word_ariths)
  with l show ?thesis by simp
qed

function send_loop ::
  "(uint8 \<Rightarrow> 'e \<Rightarrow> fault + (uint8 \<times> 'e)) \<Rightarrow> uint8 list \<Rightarrow> uint8 \<Rightarrow> nat \<Rightarrow> uint8 \<Rightarrow> uint8 \<Rightarrow> 'e
     \<Rightarrow> fault + 'e" where
  "send_loop sendbyte pBuff ucLength p ucLoopCount ucErrorCount e =
     (if ucLoopCount < ucLength
      then (if p < length pBuff
            then (case sendbyte (pBuff ! p) e of
                    Inl f \<Rightarrow> Inl f
                  | Inr (rc, e') \<Rightarrow>
                      if rc \<noteq> COMM_OK
                      then (if ucErrorCount + 1 = 5 then Inr e'
                            else send_loop sendbyte pBuff ucLength (p + 1)
                                   ((ucLoopCount - 1) + 1) (ucErrorCount + 1) e')
                      else send_loop sendbyte pBuff ucLength (p + 1) (ucLoopCount + 1)
                             ucErrorCount e')
            else Inl OutOfBounds)
      else Inr e)"
  by pat_completeness auto
termination
proof (relation "measure (\<lambda>(sb, b, n, p, lc, ec, e). (unat n - unat lc) + unat (4 - ec))", goal_cases)
  case 1
  show ?case by simp
next
  case (2 sb b n p lc ec e x2 rc e')
  then have "ec + 1 \<noteq> 5" by simp
  from send_loop_err_measure [OF this] show ?case by simp
next
  case (3 sb b n p lc ec e x2 rc e')
  then have "lc < n" by simp
  from send_loop_cnt_measure [OF this] show ?case by simp
qed

declare send_loop.simps [simp del]

definition vCOMM_SendMessage ::
  "(uint8 list \<Rightarrow> uint16) \<Rightarrow> (uint8 \<Rightarrow> 'e \<Rightarrow> fault + (uint8 \<times> 'e)) \<Rightarrow> uint8 list \<Rightarrow> uint8 \<Rightarrow> 'e
     \<Rightarrow> fault + (uint8 list \<times> 'e)" where
  "vCOMM_SendMessage crc sendbyte pBuff ucLength e =
     (let len = ucLength + CRC_SZ
      in case ucCRC16_compute_msg_CRC crc CRC_FOR_MSG_TO_SEND pBuff len of
           Inl f \<Rightarrow> Inl f
         | Inr (r, buf) \<Rightarrow>
             (case send_loop sendbyte buf len 0 0 0 e of
                Inl f \<Rightarrow> Inl f
              | Inr e' \<Rightarrow> Inr (buf, e')))"

text \<open>
  \<open>ucCOMM_SendByte\<close> as the byte routine of \<open>vCOMM_SendMessage\<close>: the environment is
  the data-line levels driven so far, the wire and the state of the module.
\<close>

definition bus_sendbyte ::
  "uint8 \<Rightarrow> bool list \<times> wire \<times> comm_state \<Rightarrow> fault + (uint8 \<times> bool list \<times> wire \<times> comm_state)" where
  "bus_sendbyte b e =
     (case e of (driven, w, s) \<Rightarrow>
        (case ucCOMM_SendByte b w s of
           Inl f \<Rightarrow> Inl f
         | Inr (rc, d, w', s') \<Rightarrow> Inr (rc, driven @ d, w', s')))"

subsection \<open>ucCOMM_GrabMessageFromBuffer\<close>

text \<open>
  The copy loop \<open>for (ucLoopCount = 0; ucLoopCount < ucLength; ucLoopCount++)
  *pucBuff++ = g_ucaRXBuffer[ucLoopCount]\<close>; the counter stays at or below
  \<open>ucLength\<close>, so a \<open>nat\<close> holds it.
\<close>

function grab_copy_loop :: "nat \<Rightarrow> nat \<Rightarrow> uint8 list \<Rightarrow> uint8 list \<Rightarrow> fault + uint8 list" where
  "grab_copy_loop ucLoopCount ucLength rx pucBuff =
     (if ucLoopCount < ucLength
      then (if ucLoopCount < length rx \<and> ucLoopCount < length pucBuff
            then grab_copy_loop (ucLoopCount + 1) ucLength rx (pucBuff[ucLoopCount := rx ! ucLoopCount])
            else Inl OutOfBounds)
      else Inr pucBuff)"
  by pat_completeness auto
termination
  by (relation "measure (\<lambda>(i, n, rx, b). n - i)") auto

declare grab_copy_loop.simps [simp del]

definition ucCOMM_GrabMessageFromBuffer ::
  "(uint8 list \<Rightarrow> uint16) \<Rightarrow> comm_state \<Rightarrow> uint8 list \<Rightarrow> fault + (uint8 \<times> uint8 list \<times> comm_state)" where
  "ucCOMM_GrabMessageFromBuffer crc s pucBuff =
     (if g_ucRXBufferIndex s < SP_HEADERSIZE then Inr (COMM_BUFFER_UNDERFLOW, pucBuff, s)
      else if \<not> MSG_LEN_IDX < length (g_ucaRXBuffer s) then Inl OutOfBounds
      else
        let ucLength = g_ucaRXBuffer s ! MSG_LEN_IDX
        in if ucLength > MAXMSGLEN then Inr (COMM_BUFFER_UNDERFLOW, pucBuff, s)
           else
             (case ucCRC16_compute_msg_CRC crc CRC_FOR_MSG_TO_REC (g_ucaRXBuffer s)
                     (g_ucaRXBuffer s ! MSG_LEN_IDX + CRC_SZ) of
                Inl f \<Rightarrow> Inl f
              | Inr (ok, rx) \<Rightarrow>
                  if ok = 0 then Inr (COMM_ERROR, pucBuff, s\<lparr>g_ucaRXBuffer := rx\<rparr>)
                  else
                    (case grab_copy_loop 0 (unat ucLength) rx pucBuff of
                       Inl f \<Rightarrow> Inl f
                     | Inr buf \<Rightarrow>
                         Inr (COMM_OK, buf,
                              s\<lparr>g_ucaRXBuffer := rx, g_ucRXBufferIndex := 0x00\<rparr>))))"

section \<open>STM.c: the sensor link\<close>

definition RX_BUFFER_SIZE_STM :: nat where "RX_BUFFER_SIZE_STM = 20"
definition MPS6 :: uint8 where "MPS6 = 0x6C"
definition FIVETM :: uint8 where "FIVETM = 0x78"
definition FIVETE :: uint8 where "FIVETE = 0x7A"

record stm_state =
  g_ucaSTM_RXBuffer :: "uint8 list"
  g_ucSTM_RXBufferIndex :: uint8
  nSTM_Temperature :: "16 word"
  lSTM_Soil :: "32 word"

text \<open>
  A read of \<open>g_ucaSTM_RXBuffer\<close>, declared with \<open>RX_BUFFER_SIZE_STM\<close> elements: an
  index outside the array is a fault.
\<close>

definition stm_rd :: "uint8 list \<Rightarrow> nat \<Rightarrow> fault + uint8" where
  "stm_rd buf i = (if i < RX_BUFFER_SIZE_STM \<and> i < length buf then Inr (buf ! i) else Inl OutOfBounds)"

subsection \<open>cSTM_Test_Checksum\<close>

text \<open>
  The \<open>do ... while (g_ucaSTM_RXBuffer[g_ucSTM_RXBufferIndex] != 0xD)\<close> loop. The sum
  \<open>add\<close> is a 16-bit \<open>int\<close> in the source; at most 22 bytes are added before the index
  leaves the array, so it cannot overflow and the model keeps it as an integer.
\<close>

function chk_loop :: "uint8 list \<Rightarrow> uint8 \<Rightarrow> int \<Rightarrow> fault + (uint8 \<times> int)" where
  "chk_loop buf idx add =
     (case stm_rd buf (unat idx) of
        Inl f \<Rightarrow> Inl f
      | Inr b \<Rightarrow>
          (case stm_rd buf (unat (idx + 1)) of
             Inl f \<Rightarrow> Inl f
           | Inr c \<Rightarrow>
               if c \<noteq> 0x0D then chk_loop buf (idx + 1) (add + uint b)
               else Inr (idx + 1, add + uint b)))"
  by pat_completeness auto
termination
proof (relation "measure (\<lambda>(buf, idx, add). RX_BUFFER_SIZE_STM - unat idx)", goal_cases)
  case 1
  show ?case by simp
next
  case (2 buf idx add b c)
  then have l: "unat idx < 20"
    by (simp add: stm_rd_def RX_BUFFER_SIZE_STM_def split: if_splits)
  then have "unat (idx + 1) = unat idx + 1" by (simp add: unat_word_ariths)
  with l show ?case by (simp add: RX_BUFFER_SIZE_STM_def)
qed

declare chk_loop.simps [simp del]

text \<open>The function returns 0 when the checksum matches and 1 when it does not.\<close>

definition cSTM_Test_Checksum :: "stm_state \<Rightarrow> fault + (uint8 \<times> stm_state)" where
  "cSTM_Test_Checksum s =
     (let buf = g_ucaSTM_RXBuffer s
      in case chk_loop buf 0 0 of
           Inl f \<Rightarrow> Inl f
         | Inr (idx, add0) \<Rightarrow>
             (case stm_rd buf (unat idx) of
                Inl f \<Rightarrow> Inl f
              | Inr d \<Rightarrow>
                  (case stm_rd buf (unat idx + 1) of
                     Inl f \<Rightarrow> Inl f
                   | Inr t \<Rightarrow>
                       (case stm_rd buf (unat idx + 2) of
                          Inl f \<Rightarrow> Inl f
                        | Inr c \<Rightarrow>
                            let add = (add0 + uint d + uint t) mod 64 + 32
                            in Inr (if uint c = add then 0 else 1,
                                    s\<lparr>g_ucSTM_RXBufferIndex := idx\<rparr>)))))"

subsection \<open>cSTM_ReadValue\<close>

text \<open>
  The search \<open>for (idx = 0; idx < RX_BUFFER_SIZE_STM; idx++)\<close> for the carriage return;
  when none is found \<open>ucSensorType\<close> stays unassigned (\<open>None\<close>).
\<close>

function type_search :: "uint8 list \<Rightarrow> uint8 \<Rightarrow> fault + (uint8 \<times> uint8 option)" where
  "type_search buf idx =
     (if unat idx < RX_BUFFER_SIZE_STM
      then (case stm_rd buf (unat idx) of
              Inl f \<Rightarrow> Inl f
            | Inr b \<Rightarrow>
                if b = 0x0D
                then (case stm_rd buf (unat idx + 1) of
                        Inl f \<Rightarrow> Inl f
                      | Inr t \<Rightarrow> Inr (idx, Some t))
                else type_search buf (idx + 1))
      else Inr (idx, None))"
  by pat_completeness auto
termination
proof (relation "measure (\<lambda>(buf, idx). RX_BUFFER_SIZE_STM - unat idx)", goal_cases)
  case 1
  show ?case by simp
next
  case (2 buf idx b)
  then have l: "unat idx < 20" by (simp add: RX_BUFFER_SIZE_STM_def)
  then have "unat (idx + 1) = unat idx + 1" by (simp add: unat_word_ariths)
  with l show ?case by (simp add: RX_BUFFER_SIZE_STM_def)
qed

declare type_search.simps [simp del]

text \<open>
  \<open>(g_ucaSTM_RXBuffer[i] - 48) * ulMult\<close>: the character is promoted to a 16-bit
  \<open>int\<close>, the difference is converted to \<open>unsigned long\<close> (sign-extended) and
  multiplied modulo \<open>2^32\<close>. Adding it to the 16-bit temperature converts the
  temperature to \<open>unsigned long\<close> and truncates the sum.
\<close>

definition digit_term :: "uint8 \<Rightarrow> uint32 \<Rightarrow> uint32" where
  "digit_term b ulMult = (scast ((ucast b :: 16 word) - 48) :: uint32) * ulMult"

definition temp_add :: "16 word \<Rightarrow> uint8 \<Rightarrow> uint32 \<Rightarrow> 16 word" where
  "temp_add t b ulMult = ucast ((scast t :: uint32) + digit_term b ulMult)"

lemma stm_rd_pred:
  assumes "stm_rd buf (unat (idx - 1)) = Inr b"
  shows "unat (idx - 1) < unat (idx :: uint8)"
proof -
  from assms have l: "unat (idx - 1) < 20"
    by (simp add: stm_rd_def RX_BUFFER_SIZE_STM_def split: if_splits)
  have "idx \<noteq> 0"
  proof
    assume "idx = 0"
    then have "unat (idx - 1) = 255"
      by (simp add: unsigned_minus_1_eq_mask mask_eq_exp_minus_1)
    with l show False by simp
  qed
  then have "unat (idx - 1) = unat idx - 1" and "0 < unat idx"
    by (simp_all add: unat_minus_one unat_gt_0)
  then show ?thesis by simp
qed

text \<open>\<open>while (buf[--idx] != 0x20 && idx != 0) { nSTM_Temperature += ...; ulMult *= 10; }\<close>\<close>

function temp_loop :: "uint8 list \<Rightarrow> uint8 \<Rightarrow> 16 word \<Rightarrow> uint32 \<Rightarrow> fault + (uint8 \<times> 16 word \<times> uint32)" where
  "temp_loop buf idx t ulMult =
     (case stm_rd buf (unat (idx - 1)) of
        Inl f \<Rightarrow> Inl f
      | Inr b \<Rightarrow>
          if b \<noteq> 0x20 \<and> idx - 1 \<noteq> 0
          then temp_loop buf (idx - 1) (temp_add t b ulMult) (ulMult * 10)
          else Inr (idx - 1, t, ulMult))"
  by pat_completeness auto
termination
  by (relation "measure (\<lambda>(buf, idx, t, m). unat idx)") (auto dest: stm_rd_pred)

declare temp_loop.simps [simp del]

text \<open>\<open>while (idx-- != 0) { lSTM_Soil += ...; ulMult *= 10; }\<close>\<close>

function soil_loop :: "uint8 list \<Rightarrow> uint8 \<Rightarrow> uint32 \<Rightarrow> uint32 \<Rightarrow> fault + (uint8 \<times> uint32 \<times> uint32)" where
  "soil_loop buf idx soil ulMult =
     (if idx \<noteq> 0
      then (case stm_rd buf (unat (idx - 1)) of
              Inl f \<Rightarrow> Inl f
            | Inr b \<Rightarrow> soil_loop buf (idx - 1) (soil + digit_term b ulMult) (ulMult * 10))
      else Inr (idx - 1, soil, ulMult))"
  by pat_completeness auto
termination
  by (relation "measure (\<lambda>(buf, idx, t, m). unat idx)") (auto dest: stm_rd_pred)

declare soil_loop.simps [simp del]

text \<open>
  \<open>while (buf[idx--] != 0x20 && idx != 0);\<close> of the 5TE layout: the index is
  decremented after the read and before it is compared with 0.
\<close>

function skip_loop :: "uint8 list \<Rightarrow> uint8 \<Rightarrow> fault + uint8" where
  "skip_loop buf idx =
     (case stm_rd buf (unat idx) of
        Inl f \<Rightarrow> Inl f
      | Inr b \<Rightarrow> if b \<noteq> 0x20 \<and> idx - 1 \<noteq> 0 then skip_loop buf (idx - 1) else Inr (idx - 1))"
  by pat_completeness auto
termination
proof (relation "measure (\<lambda>(buf, idx). if unat idx < 20 then unat idx + 1 else 0)", goal_cases)
  case 1
  show ?case by simp
next
  case (2 buf idx b)
  then have l: "unat idx < 20"
    by (simp add: stm_rd_def RX_BUFFER_SIZE_STM_def split: if_splits)
  show ?case
  proof (cases "idx = 0")
    case True
    then show ?thesis by (simp add: unsigned_minus_1_eq_mask mask_eq_exp_minus_1)
  next
    case False
    then have "unat (idx - 1) = unat idx - 1" and "0 < unat idx"
      by (simp_all add: unat_minus_one unat_gt_0)
    with l show ?thesis by simp
  qed
qed

declare skip_loop.simps [simp del]

text \<open>The temperature loop of the MPS6 layout, with its \<open>continue\<close> on the decimal point.\<close>

function mps_temp_loop :: "uint8 list \<Rightarrow> uint8 \<Rightarrow> 16 word \<Rightarrow> uint32 \<Rightarrow> fault + (uint8 \<times> 16 word \<times> uint32)" where
  "mps_temp_loop buf idx t ulMult =
     (case stm_rd buf (unat (idx - 1)) of
        Inl f \<Rightarrow> Inl f
      | Inr b \<Rightarrow>
          if b \<noteq> 0x20 \<and> idx - 1 \<noteq> 0
          then (if b = 0x2E then mps_temp_loop buf (idx - 1) t ulMult
                else mps_temp_loop buf (idx - 1)
                       (if b = 0x2D then - temp_add t b ulMult else temp_add t b ulMult)
                       (ulMult * 10))
          else Inr (idx - 1, t, ulMult))"
  by pat_completeness auto
termination
  by (relation "measure (\<lambda>(buf, idx, t, m). unat idx)") (auto dest: stm_rd_pred)

declare mps_temp_loop.simps [simp del]

text \<open>\<open>while (buf[--idx] != 0x2D) { if (buf[idx] == 0x2E) continue; lSTM_Soil += ...; ulMult *= 10; }\<close>\<close>

function mps_soil_loop :: "uint8 list \<Rightarrow> uint8 \<Rightarrow> uint32 \<Rightarrow> uint32 \<Rightarrow> fault + (uint8 \<times> uint32 \<times> uint32)" where
  "mps_soil_loop buf idx soil ulMult =
     (case stm_rd buf (unat (idx - 1)) of
        Inl f \<Rightarrow> Inl f
      | Inr b \<Rightarrow>
          if b \<noteq> 0x2D
          then (if b = 0x2E then mps_soil_loop buf (idx - 1) soil ulMult
                else mps_soil_loop buf (idx - 1) (soil + digit_term b ulMult) (ulMult * 10))
          else Inr (idx - 1, soil, ulMult))"
  by pat_completeness auto
termination
  by (relation "measure (\<lambda>(buf, idx, t, m). unat idx)") (auto dest: stm_rd_pred)

declare mps_soil_loop.simps [simp del]

definition cSTM_ReadValue :: "stm_state \<Rightarrow> fault + stm_state" where
  "cSTM_ReadValue s =
     (let buf = g_ucaSTM_RXBuffer s
      in case type_search buf 0 of
           Inl f \<Rightarrow> Inl f
         | Inr (idx, None) \<Rightarrow> Inl Uninitialised
         | Inr (idx, Some ucSensorType) \<Rightarrow>
             if ucSensorType = FIVETM
             then (case temp_loop buf idx 0 1 of
                     Inl f \<Rightarrow> Inl f
                   | Inr (i1, t, m1) \<Rightarrow>
                       (case soil_loop buf (i1 - 2) 0 1 of
                          Inl f \<Rightarrow> Inl f
                        | Inr (i2, soil, m2) \<Rightarrow>
                            Inr (s\<lparr>g_ucSTM_RXBufferIndex := i2, nSTM_Temperature := t,
                                   lSTM_Soil := soil\<rparr>)))
             else if ucSensorType = FIVETE
             then (case temp_loop buf idx 0 1 of
                     Inl f \<Rightarrow> Inl f
                   | Inr (i1, t, m1) \<Rightarrow>
                       (case skip_loop buf i1 of
                          Inl f \<Rightarrow> Inl f
                        | Inr i2 \<Rightarrow>
                            (case soil_loop buf i2 0 1 of
                               Inl f \<Rightarrow> Inl f
                             | Inr (i3, soil, m2) \<Rightarrow>
                                 Inr (s\<lparr>g_ucSTM_RXBufferIndex := i3, nSTM_Temperature := t,
                                        lSTM_Soil := soil\<rparr>))))
             else if ucSensorType = MPS6
             then (case mps_temp_loop buf idx 0 1 of
                     Inl f \<Rightarrow> Inl f
                   | Inr (i1, t, m1) \<Rightarrow>
                       (case mps_soil_loop buf (i1 - 1) 0 1 of
                          Inl f \<Rightarrow> Inl f
                        | Inr (i2, soil, m2) \<Rightarrow>
                            Inr (s\<lparr>g_ucSTM_RXBufferIndex := i2, nSTM_Temperature := t,
                                   lSTM_Soil := - soil\<rparr>)))
             else Inr (s\<lparr>g_ucSTM_RXBufferIndex := idx\<rparr>))"

section \<open>main.c: the report slots\<close>

definition NUMDATGEN :: nat where "NUMDATGEN = 0x09"
definition MAXDATALEN :: nat where "MAXDATALEN = 0x04"
definition F_NEWDATA :: uint8 where "F_NEWDATA = 0x01"

record report =
  m_ucaData :: "uint8 list"
  m_ucLength :: uint8
  m_ucFlags :: uint8

text \<open>
  The inner loop of \<open>ucMain_FetchData\<close>,
  \<open>for (ucByteCnt = 0; ucByteCnt < m_ucLength; ucByteCnt++) *pucBuff++ = m_ucaData[ucByteCnt]\<close>.
  \<open>p\<close> is the offset that \<open>pucBuff\<close> has reached in the caller's buffer. A read beyond
  the \<open>MAXDATALEN\<close> bytes of \<open>m_ucaData\<close> or a write beyond the caller's buffer is a
  fault.
\<close>

function fetch_copy_loop :: "report \<Rightarrow> nat \<Rightarrow> uint8 list \<Rightarrow> nat \<Rightarrow> fault + (uint8 list \<times> nat)" where
  "fetch_copy_loop r ucByteCnt pucBuff p =
     (if ucByteCnt < unat (m_ucLength r)
      then (if ucByteCnt < MAXDATALEN \<and> ucByteCnt < length (m_ucaData r) \<and> p < length pucBuff
            then fetch_copy_loop r (ucByteCnt + 1) (pucBuff[p := m_ucaData r ! ucByteCnt]) (p + 1)
            else Inl OutOfBounds)
      else Inr (pucBuff, p))"
  by pat_completeness auto
termination
  by (relation "measure (\<lambda>(r, i, b, p). unat (m_ucLength r) - i)") auto

declare fetch_copy_loop.simps [simp del]

text \<open>The outer loop \<open>for (ucDataGenCnt = 0; ucDataGenCnt < NUMDATGEN; ucDataGenCnt++)\<close>.\<close>

function fetch_loop ::
  "report list \<Rightarrow> nat \<Rightarrow> uint8 list \<Rightarrow> nat \<Rightarrow> uint8 \<Rightarrow> fault + (uint8 list \<times> nat \<times> uint8)" where
  "fetch_loop S_Report ucDataGenCnt pucBuff p ucLength =
     (if ucDataGenCnt < NUMDATGEN
      then (if ucDataGenCnt < length S_Report
            then (let r = S_Report ! ucDataGenCnt
                  in if m_ucFlags r AND F_NEWDATA \<noteq> 0
                     then (if p + 1 < length pucBuff
                           then (case fetch_copy_loop r 0
                                        (pucBuff[p := of_nat ucDataGenCnt, p + 1 := m_ucLength r])
                                        (p + 2) of
                                   Inl f \<Rightarrow> Inl f
                                 | Inr (buf, p') \<Rightarrow>
                                     fetch_loop S_Report (ucDataGenCnt + 1) buf p'
                                       (ucLength + (m_ucLength r + 2)))
                           else Inl OutOfBounds)
                     else fetch_loop S_Report (ucDataGenCnt + 1) pucBuff p ucLength)
            else Inl OutOfBounds)
      else Inr (pucBuff, p, ucLength))"
  by pat_completeness auto
termination
  by (relation "measure (\<lambda>(S, i, b, p, n). NUMDATGEN - i)") auto

declare fetch_loop.simps [simp del]

text \<open>
  The result holds the returned length, the caller's buffer and the report table after
  the call; no statement of the function assigns to \<open>S_Report\<close>.
\<close>

definition ucMain_FetchData :: "report list \<Rightarrow> uint8 list \<Rightarrow> fault + (uint8 \<times> uint8 list \<times> report list)" where
  "ucMain_FetchData S_Report pucBuff =
     (case fetch_loop S_Report 0 pucBuff 0 0 of
        Inl f \<Rightarrow> Inl f
      | Inr (buf, p, ucLength) \<Rightarrow> Inr (ucLength, buf, S_Report))"

text \<open>\<open>ucMain_ShutdownAllowed\<close> of main.c returns 1 whatever the state of the application.\<close>

definition ucMain_ShutdownAllowed :: "'app \<Rightarrow> uint8" where
  "ucMain_ShutdownAllowed app = 1"

section \<open>core.c: the dispatch of a received message\<close>

text \<open>The cases of \<open>switch (ucaMsg_Buff[MSG_TYP_IDX])\<close> in \<open>vCORE_Run\<close>, in source order.\<close>

datatype msg_case =
  CaseCommand | CaseRequestData | CaseRequestLabel | CaseRequestBslPw | CaseInterrogate
  | CaseSetSerialNum | CaseCommandSensorType | CaseRequestSensorType | CaseDefault

definition vCORE_Run_switch :: "uint8 \<Rightarrow> msg_case" where
  "vCORE_Run_switch typ =
     (if typ = COMMAND_PKT then CaseCommand
      else if typ = REQUEST_DATA then CaseRequestData
      else if typ = REQUEST_LABEL then CaseRequestLabel
      else if typ = REQUEST_BSL_PW then CaseRequestBslPw
      else if typ = INTERROGATE then CaseInterrogate
      else if typ = SET_SERIALNUM then CaseSetSerialNum
      else if typ = COMMAND_SENSOR_TYPE then CaseCommandSensorType
      else if typ = REQUEST_SENSOR_TYPE then CaseRequestSensorType
      else CaseDefault)"

text \<open>
  The \<open>default\<close> case fills the header of the reply in the buffer that holds the
  received message; \<open>allowed\<close> is what the call of the shutdown predicate returned.
\<close>

definition vCORE_Run_default :: "uint8 \<Rightarrow> uint8 list \<Rightarrow> uint8 list" where
  "vCORE_Run_default allowed ucaMsg_Buff =
     (let b1 = ucaMsg_Buff[MSG_TYP_IDX := REPORT_ERROR];
          b2 = b1[MSG_LEN_IDX := SP_HEADERSIZE];
          b3 = b2[MSG_VER_IDX := SP_DATAMESSAGE_VERSION]
      in if allowed = 1 then b3[MSG_FLAGS_IDX := b3 ! MSG_FLAGS_IDX OR SHUTDOWN_BIT]
         else b3[MSG_FLAGS_IDX := 0])"

text \<open>
  The body of the branch \<open>ucCommState == COMM_OK\<close>. The claims are about the
  \<open>default\<close> case; the other cases, which call into flash.c and the sensor drivers, are
  the parameter \<open>cases\<close>. \<open>shutdown\<close> is the predicate of the application layer on the
  application's state \<open>app\<close>, and \<open>sendmsg\<close> stands for \<open>vCOMM_SendMessage\<close>. The local
  buffer \<open>ucaMsg_Buff\<close> has \<open>MAXMSGLEN\<close> elements.
\<close>

definition vCORE_Run_dispatch ::
  "(msg_case \<Rightarrow> 'app \<Rightarrow> uint8 list \<Rightarrow> 'e \<Rightarrow> fault + (uint8 list \<times> 'e)) \<Rightarrow> ('app \<Rightarrow> uint8)
     \<Rightarrow> (uint8 list \<Rightarrow> uint8 \<Rightarrow> 'e \<Rightarrow> fault + (uint8 list \<times> 'e))
     \<Rightarrow> 'app \<Rightarrow> uint8 list \<Rightarrow> 'e \<Rightarrow> fault + (uint8 list \<times> 'e)" where
  "vCORE_Run_dispatch cases shutdown sendmsg app ucaMsg_Buff e =
     (if length ucaMsg_Buff \<noteq> unat MAXMSGLEN then Inl OutOfBounds
      else
        (case vCORE_Run_switch (ucaMsg_Buff ! MSG_TYP_IDX) of
           CaseDefault \<Rightarrow>
             (let buf = vCORE_Run_default (shutdown app) ucaMsg_Buff
              in sendmsg buf (buf ! MSG_LEN_IDX) e)
         | c \<Rightarrow> cases c app ucaMsg_Buff e))"

section \<open>Auxiliary notions for the statements\<close>

text \<open>The state that \<open>vCOMM_Init\<close> leaves, with \<open>P1OUT\<close> as \<open>vCORE_Initilize\<close> sets it.\<close>

definition comm_init :: comm_state where
  "comm_init = \<lparr>g_ucCOMM_Flags = COMM_RUNNING, g_ucaRXBuffer = replicate 64 0xFF,
                 g_ucRXBufferIndex = 0x00, P1OUT = 0x02\<rparr>"

text \<open>
  The nine samples that the data line shows while the peer sends a byte in the format of
  \<open>ucCOMM_SendByte\<close> (bit 0 first, even parity last), and the wire of a byte sequence.
\<close>

definition cp_frame :: "uint8 \<Rightarrow> wire" where
  "cp_frame b =
     map (\<lambda>level. if level then SDA_PIN else 0)
       (snd (tx_bit_loop 9 ((ucast b :: uint16) OR push_bit 8 (ucast (tx_parity_loop b 0 0))) 0 []))"

definition cp_wire :: "uint8 list \<Rightarrow> wire" where
  "cp_wire bs = concat (map cp_frame bs)"

text \<open>The return code of a call, when it returns.\<close>

definition ret_code :: "fault + (uint8 \<times> 'a) \<Rightarrow> uint8 option" where
  "ret_code r = (case r of Inl f \<Rightarrow> None | Inr (rc, x) \<Rightarrow> Some rc)"

text \<open>The byte that the sampling loop assembles from the first eight samples of a wire.\<close>

definition wire_byte :: "wire \<Rightarrow> uint8" where
  "wire_byte w = (case rx_sample_loop 8 w 0 0 of Inr (b, p, w') \<Rightarrow> b | Inl f \<Rightarrow> 0)"

text \<open>The state after a call of \<open>ucCOMM_ReceiveByte\<close> that returns.\<close>

definition rx_step :: "wire \<Rightarrow> comm_state \<Rightarrow> comm_state" where
  "rx_step w s = (case ucCOMM_ReceiveByte w s of Inr (rc, w', s') \<Rightarrow> s' | Inl f \<Rightarrow> s)"

text \<open>
  The trailer of the message in the receive buffer equals the checksum of the bytes that
  the length byte declares.
\<close>

definition rx_trailer_ok :: "(uint8 list \<Rightarrow> uint16) \<Rightarrow> uint8 list \<Rightarrow> bool" where
  "rx_trailer_ok crc rx =
     (let n = unat (rx ! MSG_LEN_IDX);
          c = crc (take n rx)
      in rx ! n = ucast (drop_bit 8 c) \<and> rx ! (n + 1) = ucast c)"

text \<open>
  A byte routine for \<open>vCOMM_SendMessage\<close> that follows a script of return codes
  (\<open>COMM_OK\<close> once the script is exhausted) and records the bytes it is handed.
\<close>

definition sim_sendbyte :: "uint8 \<Rightarrow> uint8 list \<times> uint8 list \<Rightarrow> fault + (uint8 \<times> uint8 list \<times> uint8 list)" where
  "sim_sendbyte b e =
     (case e of (script, sent) \<Rightarrow>
        (case script of
           [] \<Rightarrow> Inr (COMM_OK, [], sent @ [b])
         | rc # rest \<Rightarrow> Inr (rc, rest, sent @ [b])))"

text \<open>The bytes handed to the byte routine during a call of \<open>vCOMM_SendMessage\<close>.\<close>

definition sent_bytes :: "fault + (uint8 list \<times> uint8 list \<times> uint8 list) \<Rightarrow> uint8 list option" where
  "sent_bytes r = (case r of Inl f \<Rightarrow> None | Inr (buf, script, sent) \<Rightarrow> Some sent)"

text \<open>
  A 64-byte message buffer as the callers of \<open>vCOMM_SendMessage\<close> declare it, holding a
  confirm message of four bytes; the bytes behind the header are left over from earlier use.
\<close>

definition msg4 :: "uint8 list" where
  "msg4 = [0x07, 0x04, 0x78, 0x00] @ [0xA0, 0xA1, 0xA2, 0xA3] @ replicate 56 0xEE"

text \<open>The message types that \<open>vCORE_Run\<close> has a case for.\<close>

definition dispatched_types :: "uint8 set" where
  "dispatched_types = {COMMAND_PKT, REQUEST_DATA, REQUEST_LABEL, REQUEST_BSL_PW, INTERROGATE,
     SET_SERIALNUM, COMMAND_SENSOR_TYPE, REQUEST_SENSOR_TYPE}"

text \<open>
  The group that a report slot contributes to a data report (id, length, data bytes), a
  slot whose length fits its data array, and the slots whose new-data flag is set, in
  ascending order.
\<close>

definition slot_group :: "report list \<Rightarrow> nat \<Rightarrow> uint8 list" where
  "slot_group S i =
     [of_nat i, m_ucLength (S ! i)] @ take (unat (m_ucLength (S ! i))) (m_ucaData (S ! i))"

definition slot_ok :: "report \<Rightarrow> bool" where
  "slot_ok r = (unat (m_ucLength r) \<le> MAXDATALEN \<and> length (m_ucaData r) = MAXDATALEN)"

definition new_slots :: "report list \<Rightarrow> nat list" where
  "new_slots S = filter (\<lambda>i. m_ucFlags (S ! i) AND F_NEWDATA \<noteq> 0) [0..<length S]"

definition empty_slot :: report where
  "empty_slot = \<lparr>m_ucaData = [0, 0, 0, 0], m_ucLength = 0, m_ucFlags = 0\<rparr>"

text \<open>A report table in which exactly the slots 2 and 5 hold new data.\<close>

definition S_Report_2_5 :: "report list" where
  "S_Report_2_5 =
     [empty_slot, empty_slot,
      \<lparr>m_ucaData = [0x12, 0x34, 0, 0], m_ucLength = 2, m_ucFlags = F_NEWDATA\<rparr>,
      empty_slot, empty_slot,
      \<lparr>m_ucaData = [0xAB, 0, 0, 0], m_ucLength = 1, m_ucFlags = F_NEWDATA\<rparr>,
      empty_slot, empty_slot, empty_slot]"

text \<open>
  The sum of a list of bytes; a 20-byte sensor buffer whose first carriage return at
  index 1 or above stands at \<open>k\<close>, with room for the type byte and the checksum byte
  behind it; and a buffer that \<open>cSTM_Test_Checksum\<close> accepts (it returns 0).
\<close>

definition byte_sum :: "uint8 list \<Rightarrow> int" where
  "byte_sum bs = sum_list (map uint bs)"

definition terminator_at :: "uint8 list \<Rightarrow> nat \<Rightarrow> bool" where
  "terminator_at buf k =
     (1 \<le> k \<and> k + 2 < RX_BUFFER_SIZE_STM \<and> length buf = RX_BUFFER_SIZE_STM
      \<and> buf ! k = 0x0D \<and> list_all (\<lambda>j. buf ! j \<noteq> 0x0D) [1..<k])"

definition stm_accepts :: "stm_state \<Rightarrow> bool" where
  "stm_accepts s = (ret_code (cSTM_Test_Checksum s) = Some 0)"

text \<open>The bytes of an ASCII string, and sensor states holding a line in the receive buffer.\<close>

definition asc :: "string \<Rightarrow> uint8 list" where
  "asc str = map (\<lambda>c. of_nat (of_char c)) str"

definition stm_with :: "uint8 list \<Rightarrow> stm_state" where
  "stm_with buf =
     \<lparr>g_ucaSTM_RXBuffer = buf, g_ucSTM_RXBufferIndex = 0, nSTM_Temperature = 0, lSTM_Soil = 0\<rparr>"

section \<open>Properties of comm.c\<close>

subsection \<open>Receiving\<close>

lemma rx_sample_loop_total:
  "n \<le> length w \<Longrightarrow> \<exists>b' p'. rx_sample_loop n w b p = Inr (b', p', drop n w)"
proof (induction n w b p rule: rx_sample_loop.induct)
  case (1 w b p)
  then show ?case by simp
next
  case (2 n b p)
  then show ?case by simp
next
  case (3 n x w b p)
  then show ?case by auto
qed


lemma ReceiveByte_ok:
  assumes nb: "g_ucCOMM_Flags s AND COMM_RX_BUSY = 0"
    and i: "unat (g_ucRXBufferIndex s) < length (g_ucaRXBuffer s)"
    and w: "9 \<le> length w"
  shows "ucCOMM_ReceiveByte w s = Inr (COMM_OK, drop 9 w, rx_step w s)"
proof -
  from w have "8 \<le> length w" by simp
  from rx_sample_loop_total [OF this] obtain b p where
    l: "rx_sample_loop 8 w 0 0 = Inr (b, p, drop 8 w)" by blast
  from w obtain x where d: "drop 8 w = x # drop 9 w"
    by (metis Cons_nth_drop_Suc Suc_le_lessD eval_nat_numeral(3) numeral_nat(2) one_add_one semiring_norm(26) semiring_norm(27))
  have "\<exists>s'. ucCOMM_ReceiveByte w s = Inr (COMM_OK, drop 9 w, s')"
    using nb i l d by (simp add: ucCOMM_ReceiveByte_def Let_def)
  then show ?thesis by (auto simp: rx_step_def)
qed

lemma rx_step_fields:
  assumes nb: "g_ucCOMM_Flags s AND COMM_RX_BUSY = 0"
    and i: "unat (g_ucRXBufferIndex s) < length (g_ucaRXBuffer s)"
    and w: "9 \<le> length w"
  shows "g_ucRXBufferIndex (rx_step w s) = g_ucRXBufferIndex s + 1"
    and "g_ucaRXBuffer (rx_step w s) = (g_ucaRXBuffer s)[unat (g_ucRXBufferIndex s) := wire_byte w]"
    and "g_ucCOMM_Flags (rx_step w s) AND COMM_RX_BUSY = 0"
proof -
  from w have "8 \<le> length w" by simp
  from rx_sample_loop_total [OF this] obtain b p where
    l: "rx_sample_loop 8 w 0 0 = Inr (b, p, drop 8 w)" by blast
  from w obtain x where d: "drop 8 w = x # drop 9 w"
    by (metis Cons_nth_drop_Suc Suc_le_lessD eval_nat_numeral(3) numeral_nat(2) one_add_one semiring_norm(26) semiring_norm(27))
  show "g_ucRXBufferIndex (rx_step w s) = g_ucRXBufferIndex s + 1"
    using nb i l d by (simp add: rx_step_def ucCOMM_ReceiveByte_def Let_def)
  show "g_ucaRXBuffer (rx_step w s) = (g_ucaRXBuffer s)[unat (g_ucRXBufferIndex s) := wire_byte w]"
    using nb i l d by (simp add: rx_step_def ucCOMM_ReceiveByte_def Let_def wire_byte_def)
  show "g_ucCOMM_Flags (rx_step w s) AND COMM_RX_BUSY = 0"
    using nb i l d
    by (simp add: rx_step_def ucCOMM_ReceiveByte_def Let_def COMM_RX_BUSY_def COMM_PARITY_ERR_def
        bit.conj_disj_distrib2 and.assoc)
qed

lemma wait_loop_tail:
  "\<lbrakk>g_ucCOMM_Flags s AND COMM_RX_BUSY = 0; length (g_ucaRXBuffer s) = 64;
    4 \<le> unat (g_ucRXBufferIndex s); unat (g_ucRXBufferIndex s) + Suc k = unat sz;
    unat sz \<le> 64; 9 * Suc k \<le> length w\<rbrakk>
   \<Longrightarrow> \<exists>s'. wait_loop w s sz = Inr (0, drop (9 * Suc k) w, s') \<and> g_ucRXBufferIndex s' = sz
         \<and> length (g_ucaRXBuffer s') = 64 \<and> g_ucaRXBuffer s' ! 1 = g_ucaRXBuffer s ! 1"
proof (induction k arbitrary: w s)
  case 0
  let ?s1 = "rx_step w s"
  from 0 have i: "unat (g_ucRXBufferIndex s) < length (g_ucaRXBuffer s)" and w: "9 \<le> length w"
    by simp_all
  note rb = ReceiveByte_ok [OF "0.prems"(1) i w]
  note f = rx_step_fields [OF "0.prems"(1) i w]
  from 0 have u: "unat (g_ucRXBufferIndex s + 1) = unat (g_ucRXBufferIndex s) + 1"
    by (simp add: unat_word_ariths)
  with 0 f(1) have e: "g_ucRXBufferIndex ?s1 = sz"
    by (simp add: word_unat_eq_iff)
  from u 0 f(1) have n4: "g_ucRXBufferIndex ?s1 \<noteq> SP_HEADERSIZE" and n0: "g_ucRXBufferIndex ?s1 \<noteq> 0"
    by (auto simp: SP_HEADERSIZE_def unat_eq_0 dest: arg_cong [where f = unat])
  from e n4 n0 have z: "sz \<noteq> SP_HEADERSIZE" "sz \<noteq> 0" by auto
  have "wait_loop w s sz = Inr (0, drop 9 w, ?s1)"
    by (subst wait_loop.simps) (simp add: rb z e COMM_OK_def)
  moreover have "g_ucaRXBuffer ?s1 ! 1 = g_ucaRXBuffer s ! 1"
    using f(2) 0 by simp
  moreover have "length (g_ucaRXBuffer ?s1) = 64" using f(2) 0 by simp
  ultimately show ?case using e by simp
next
  case (Suc k)
  let ?s1 = "rx_step w s"
  from Suc.prems have i: "unat (g_ucRXBufferIndex s) < length (g_ucaRXBuffer s)" and w: "9 \<le> length w"
    by simp_all
  note rb = ReceiveByte_ok [OF Suc.prems(1) i w]
  note f = rx_step_fields [OF Suc.prems(1) i w]
  from Suc.prems have u: "unat (g_ucRXBufferIndex s + 1) = unat (g_ucRXBufferIndex s) + 1"
    by (simp add: unat_word_ariths)
  from u Suc.prems f(1) have n4: "g_ucRXBufferIndex ?s1 \<noteq> SP_HEADERSIZE"
    and ne: "g_ucRXBufferIndex ?s1 \<noteq> sz"
    by (auto simp: SP_HEADERSIZE_def dest: arg_cong [where f = unat])
  have step: "wait_loop w s sz = wait_loop (drop 9 w) ?s1 sz"
    by (subst wait_loop.simps) (simp add: rb n4 ne COMM_OK_def)
  have b1: "g_ucaRXBuffer ?s1 ! 1 = g_ucaRXBuffer s ! 1" using f(2) Suc.prems by simp
  have len1: "length (g_ucaRXBuffer ?s1) = 64" using f(2) Suc.prems by simp
  have "\<exists>s'. wait_loop (drop 9 w) ?s1 sz = Inr (0, drop (9 * Suc k) (drop 9 w), s') \<and> g_ucRXBufferIndex s' = sz
         \<and> length (g_ucaRXBuffer s') = 64 \<and> g_ucaRXBuffer s' ! 1 = g_ucaRXBuffer ?s1 ! 1"
    using Suc.prems f(1) u len1 by (intro Suc.IH [OF f(3)]) simp_all
  then show ?case using step b1 by (simp add: add.commute)
qed


lemma u8_bound: "unat (L :: uint8) < 256"
  using unsigned_less [of L] by simp

lemma nat_window:
  "n < 256 \<Longrightarrow> (\<not> (64 < (n + 2) mod 256 \<or> (n + 2) mod 256 < 4)) = (2 \<le> n \<and> n \<le> (62::nat))"
proof (cases "n + 2 < 256")
  case True
  then have "(n + 2) mod 256 = n + 2" by simp
  then show ?thesis by auto
next
  case False
  assume n: "n < 256"
  with False have "(n + 2) mod 256 = n + 2 - 256"
    by (simp add: mod_if)
  with False n show ?thesis by auto
qed

lemma u8_plus2: "unat (L + 2 :: uint8) = (unat L + 2) mod 256"
  by (simp add: unat_word_ariths)

lemma len_window: "(\<not> (64 < L + 2 \<or> L + 2 < 4)) = (2 \<le> L \<and> L \<le> (62::uint8))"
  using nat_window [OF u8_bound [of L]]
  by (simp add: word_less_nat_alt word_le_nat_alt u8_plus2)

lemma len_window_unat: "2 \<le> L \<Longrightarrow> L \<le> (62::uint8) \<Longrightarrow> unat (L + 2) = unat L + 2"
  by (simp add: word_le_nat_alt u8_plus2)

lemma wait_loop_head:
  assumes nb: "g_ucCOMM_Flags s AND COMM_RX_BUSY = 0"
    and len: "length (g_ucaRXBuffer s) = 64"
    and i: "unat (g_ucRXBufferIndex s) < 3"
    and w: "9 \<le> length w"
  shows "wait_loop w s SP_HEADERSIZE = wait_loop (drop 9 w) (rx_step w s) SP_HEADERSIZE"
proof -
  from len i have i': "unat (g_ucRXBufferIndex s) < length (g_ucaRXBuffer s)" by simp
  note rb = ReceiveByte_ok [OF nb i' w]
  note f = rx_step_fields [OF nb i' w]
  from i have u: "unat (g_ucRXBufferIndex s + 1) = unat (g_ucRXBufferIndex s) + 1"
    by (simp add: unat_word_ariths)
  with i f(1) have n4: "g_ucRXBufferIndex (rx_step w s) \<noteq> SP_HEADERSIZE"
    by (auto simp: SP_HEADERSIZE_def dest: arg_cong [where f = unat])
  show ?thesis
    by (subst wait_loop.simps) (simp add: rb n4 COMM_OK_def)
qed

text \<open>
  C1, as the code has it. On an idle receiver with an empty buffer, and a peer that
  clocks the four header bytes and, for a length the code admits, the rest of the
  message, \<open>ucCOMM_WaitForMessage\<close> returns. It returns \<open>COMM_OK\<close> exactly
  when the declared length byte (the second byte on the wire) lies in [2, 62], that is
  when the length with the two CRC bytes added, as an 8-bit value, lies in [4, 64]; it
  has then received the declared length plus two bytes. For every other declared length
  it returns \<open>COMM_ERROR\<close> with only the four header bytes taken from the wire.
\<close>

theorem ucCOMM_WaitForMessage_length_window:
  assumes nb: "g_ucCOMM_Flags s AND COMM_RX_BUSY = 0"
    and idx: "g_ucRXBufferIndex s = 0"
    and len: "length (g_ucaRXBuffer s) = 64"
    and w: "9 * 4 \<le> length w"
    and wl: "2 \<le> wire_byte (drop 9 w) \<and> wire_byte (drop 9 w) \<le> 62
             \<longrightarrow> 9 * (unat (wire_byte (drop 9 w)) + 2) \<le> length w"
  shows "\<exists>rc w' s'. ucCOMM_WaitForMessage w s = Inr (rc, w', s')
           \<and> g_ucaRXBuffer s' ! MSG_LEN_IDX = wire_byte (drop 9 w)
           \<and> (rc = COMM_OK \<longleftrightarrow> 2 \<le> wire_byte (drop 9 w) \<and> wire_byte (drop 9 w) \<le> 62)
           \<and> (if rc = COMM_OK
               then g_ucRXBufferIndex s' = wire_byte (drop 9 w) + CRC_SZ
                    \<and> w' = drop (9 * (unat (wire_byte (drop 9 w)) + 2)) w
               else rc = COMM_ERROR \<and> g_ucRXBufferIndex s' = SP_HEADERSIZE \<and> w' = drop (9 * 4) w)"
proof -
  let ?L = "wire_byte (drop 9 w)"
  let ?w1 = "drop 9 w" and ?w2 = "drop 18 w" and ?w3 = "drop 27 w" and ?w4 = "drop 36 w"
  let ?s1 = "rx_step w s"
  let ?s2 = "rx_step ?w1 ?s1"
  let ?s3 = "rx_step ?w2 ?s2"
  let ?s4 = "rx_step ?w3 ?s3"
  from w have w0: "9 \<le> length w" and w1: "9 \<le> length ?w1" and w2: "9 \<le> length ?w2"
    and w3: "9 \<le> length ?w3" by simp_all
  from idx len have i0: "unat (g_ucRXBufferIndex s) < length (g_ucaRXBuffer s)" by simp
  note f1 = rx_step_fields [OF nb i0 w0]
  from f1 idx len have x1: "g_ucRXBufferIndex ?s1 = 1" and l1: "length (g_ucaRXBuffer ?s1) = 64"
    by simp_all
  then have i1: "unat (g_ucRXBufferIndex ?s1) < length (g_ucaRXBuffer ?s1)" by simp
  note f2 = rx_step_fields [OF f1(3) i1 w1]
  from f2 x1 l1 have x2: "g_ucRXBufferIndex ?s2 = 2" and l2: "length (g_ucaRXBuffer ?s2) = 64"
    and b2: "g_ucaRXBuffer ?s2 ! 1 = ?L"
    by simp_all
  then have i2: "unat (g_ucRXBufferIndex ?s2) < length (g_ucaRXBuffer ?s2)" by simp
  have f3: "g_ucRXBufferIndex ?s3 = g_ucRXBufferIndex ?s2 + 1"
    "g_ucaRXBuffer ?s3 = (g_ucaRXBuffer ?s2)[unat (g_ucRXBufferIndex ?s2) := wire_byte ?w2]"
    "g_ucCOMM_Flags ?s3 AND COMM_RX_BUSY = 0"
    using rx_step_fields [OF f2(3) i2, of ?w2] w2 by simp_all
  from f3 x2 l2 b2 have x3: "g_ucRXBufferIndex ?s3 = 3" and l3: "length (g_ucaRXBuffer ?s3) = 64"
    and b3: "g_ucaRXBuffer ?s3 ! 1 = ?L"
    by simp_all
  then have i3: "unat (g_ucRXBufferIndex ?s3) < length (g_ucaRXBuffer ?s3)" by simp
  have f4: "g_ucRXBufferIndex ?s4 = g_ucRXBufferIndex ?s3 + 1"
    "g_ucaRXBuffer ?s4 = (g_ucaRXBuffer ?s3)[unat (g_ucRXBufferIndex ?s3) := wire_byte ?w3]"
    "g_ucCOMM_Flags ?s4 AND COMM_RX_BUSY = 0"
    using rx_step_fields [OF f3(3) i3, of ?w3] w3 by simp_all
  from f4 x3 l3 b3 have x4: "g_ucRXBufferIndex ?s4 = 4" and l4: "length (g_ucaRXBuffer ?s4) = 64"
    and b4: "g_ucaRXBuffer ?s4 ! 1 = ?L"
    by simp_all
  have h1: "wait_loop w s SP_HEADERSIZE = wait_loop ?w1 ?s1 SP_HEADERSIZE"
    using wait_loop_head [OF nb len _ w0] idx by simp
  have h2: "wait_loop ?w1 ?s1 SP_HEADERSIZE = wait_loop ?w2 ?s2 SP_HEADERSIZE"
    using wait_loop_head [OF f1(3) l1 _ w1] x1 by simp
  have h3: "wait_loop ?w2 ?s2 SP_HEADERSIZE = wait_loop ?w3 ?s3 SP_HEADERSIZE"
    using wait_loop_head [OF f2(3) l2 _ w2] x2 by simp
  have rb4: "ucCOMM_ReceiveByte ?w3 ?s3 = Inr (COMM_OK, ?w4, ?s4)"
    using ReceiveByte_ok [OF f3(3) i3 w3] by simp
  have b4': "g_ucaRXBuffer ?s4 ! MSG_LEN_IDX = ?L" using b4 by (simp add: MSG_LEN_IDX_def)
  have m: "MSG_LEN_IDX < 64" by (simp add: MSG_LEN_IDX_def)
  have x4': "g_ucRXBufferIndex ?s4 = SP_HEADERSIZE" using x4 by (simp add: SP_HEADERSIZE_def)
  have h4: "wait_loop ?w3 ?s3 SP_HEADERSIZE =
      (if 64 < ?L + 2 \<or> ?L + 2 < 4 then Inr (COMM_ERROR, ?w4, ?s4)
       else if 4 \<noteq> ?L + 2 then wait_loop ?w4 ?s4 (?L + 2)
       else Inr (0, ?w4, ?s4))"
  proof -
    have "wait_loop ?w3 ?s3 SP_HEADERSIZE =
      (let sz = ?L + CRC_SZ
       in if MAXMSGLEN < sz \<or> sz < SP_HEADERSIZE then Inr (COMM_ERROR, ?w4, ?s4)
          else if SP_HEADERSIZE \<noteq> sz then wait_loop ?w4 ?s4 sz
          else if SP_HEADERSIZE = 0 then Inr (COMM_ERROR, ?w4, ?s4)
          else Inr (0, ?w4, ?s4))"
      by (simp add: wait_loop.simps [of ?w3 ?s3 SP_HEADERSIZE] rb4 x4' l4 b4' m Let_def)
    then show ?thesis
      by (simp add: SP_HEADERSIZE_def CRC_SZ_def MAXMSGLEN_def Let_def)
  qed
  note h = h1 [THEN trans, OF h2 [THEN trans, OF h3 [THEN trans, OF h4]]]
  show ?thesis
  proof (cases "2 \<le> ?L \<and> ?L \<le> 62")
    case False
    with len_window [of ?L] have "64 < ?L + 2 \<or> ?L + 2 < 4" by simp
    with h have "ucCOMM_WaitForMessage w s = Inr (COMM_ERROR, ?w4, ?s4)"
      by (simp add: ucCOMM_WaitForMessage_def)
    with False b4 x4 show ?thesis
      by (simp add: COMM_ERROR_def COMM_OK_def SP_HEADERSIZE_def MSG_LEN_IDX_def)
  next
    case True
    with len_window [of ?L] have ok: "\<not> (64 < ?L + 2 \<or> ?L + 2 < 4)" by simp
    from True have u: "unat (?L + 2) = unat ?L + 2" by (simp add: len_window_unat)
    show ?thesis
    proof (cases "?L + 2 = 4")
      case True
      with h ok have r: "ucCOMM_WaitForMessage w s = Inr (0, ?w4, ?s4)"
        by (simp add: ucCOMM_WaitForMessage_def)
      from True u have "unat ?L = 2" by simp
      with r True b4 x4 \<open>2 \<le> ?L \<and> ?L \<le> 62\<close> show ?thesis
        by (simp add: COMM_OK_def MSG_LEN_IDX_def CRC_SZ_def)
    next
      case False
      have "unat ?L \<noteq> 2"
      proof
        assume "unat ?L = 2"
        then have "?L = 2" by (simp add: word_unat_eq_iff)
        with False show False by simp
      qed
      with True have g: "3 \<le> unat ?L" "unat ?L \<le> 62" by (simp_all add: word_le_nat_alt)
      define k where "k = unat ?L - 3"
      from g k_def u x4 have a: "unat (g_ucRXBufferIndex ?s4) + Suc k = unat (?L + 2)" by simp
      from g u have b: "unat (?L + 2) \<le> 64" by simp
      from wl True have "9 * (unat ?L + 2) \<le> length w" by simp
      with g k_def have c: "9 * Suc k \<le> length ?w4" by simp
      from x4 have d: "4 \<le> unat (g_ucRXBufferIndex ?s4)" by simp
      from wait_loop_tail [OF f4(3) l4 d a b c] obtain s' where
        t: "wait_loop ?w4 ?s4 (?L + 2) = Inr (0, drop (9 * Suc k) ?w4, s')"
        and ti: "g_ucRXBufferIndex s' = ?L + 2" and tb: "g_ucaRXBuffer s' ! 1 = g_ucaRXBuffer ?s4 ! 1"
        by blast
      from False have "4 \<noteq> ?L + 2" by auto
      with h ok t have r: "ucCOMM_WaitForMessage w s = Inr (0, drop (9 * Suc k) ?w4, s')"
        by (simp add: ucCOMM_WaitForMessage_def)
      from g k_def have e: "9 * Suc k + 36 = 9 * (unat ?L + 2)" by simp
      have "drop (9 * Suc k) ?w4 = drop (9 * Suc k + 36) w" by (rule drop_drop)
      also have "\<dots> = drop (9 * (unat ?L + 2)) w" by (simp only: e)
      finally have "drop (9 * Suc k) ?w4 = drop (9 * (unat ?L + 2)) w" .
      with r have "ucCOMM_WaitForMessage w s = Inr (0, drop (9 * (unat ?L + 2)) w, s')" by simp
      with ti tb b4 True show ?thesis
        by (simp add: COMM_OK_def MSG_LEN_IDX_def CRC_SZ_def)
    qed
  qed
qed

theorem ucCOMM_WaitForMessage_length_window_witness:
  "\<exists>rc w' s'. ucCOMM_WaitForMessage (cp_wire [4, 5, 120, 0, 9, 17, 34]) comm_init = Inr (rc, w', s')
           \<and> g_ucaRXBuffer s' ! MSG_LEN_IDX = 5 \<and> rc = COMM_OK \<and> g_ucRXBufferIndex s' = 7
           \<and> w' = []"
proof -
  have a: "g_ucCOMM_Flags comm_init AND COMM_RX_BUSY = 0" by code_simp
  have b: "g_ucRXBufferIndex comm_init = 0" by code_simp
  have c: "length (g_ucaRXBuffer comm_init) = 64" by code_simp
  have d: "9 * 4 \<le> length (cp_wire [4, 5, 120, 0, 9, 17, 34])" by code_simp
  have e: "wire_byte (drop 9 (cp_wire [4, 5, 120, 0, 9, 17, 34])) = 5" by code_simp
  have f: "2 \<le> wire_byte (drop 9 (cp_wire [4, 5, 120, 0, 9, 17, 34]))
             \<and> wire_byte (drop 9 (cp_wire [4, 5, 120, 0, 9, 17, 34])) \<le> 62
           \<longrightarrow> 9 * (unat (wire_byte (drop 9 (cp_wire [4, 5, 120, 0, 9, 17, 34]))) + 2)
                 \<le> length (cp_wire [4, 5, 120, 0, 9, 17, 34])"
    by code_simp
  have g: "drop (9 * (unat (5 :: uint8) + 2)) (cp_wire [4, 5, 120, 0, 9, 17, 34]) = []" by code_simp
  from ucCOMM_WaitForMessage_length_window [OF a b c d f] show ?thesis
    unfolding e g by (auto simp: COMM_OK_def CRC_SZ_def)
qed

text \<open>
  C1 as stated fails: a header that declares 63 bytes (inside [4, 64]) is rejected, one
  that declares 3 bytes (outside) is accepted, and the rejection code is \<open>COMM_ERROR\<close>,
  not a buffer underflow or overflow code.
\<close>

theorem ucCOMM_WaitForMessage_window_counterexample:
  "ret_code (ucCOMM_WaitForMessage (cp_wire [4, 63, 120, 0]) comm_init) = Some COMM_ERROR
   \<and> ret_code (ucCOMM_WaitForMessage (cp_wire [4, 3, 120, 0, 9]) comm_init) = Some COMM_OK
   \<and> COMM_ERROR \<noteq> COMM_BUFFER_UNDERFLOW \<and> COMM_ERROR \<noteq> COMM_BUFFER_OVERFLOW"
  by code_simp

subsection \<open>Sending a byte\<close>

lemma sda_and_ne_1: "x AND SDA_PIN \<noteq> (1 :: uint8)"
proof
  assume "x AND SDA_PIN = 1"
  then have "bit (x AND SDA_PIN) 0" by simp
  then show False by (simp add: SDA_PIN_def bit_simps)
qed

text \<open>
  C7: \<open>ucCOMM_SendByte\<close> is meant to return \<open>COMM_ACK_ERR\<close> when the sampled ACK bit
  shows a NACK. The sample is masked with \<open>SDA_PIN\<close> (0x02) and then compared with 1, so
  no call returns \<open>COMM_ACK_ERR\<close>: on an idle link with the data line high at the ACK
  sample the call returns \<open>COMM_OK\<close>.
\<close>

theorem ucCOMM_SendByte_never_ack_err:
  "ucCOMM_SendByte c w s \<noteq> Inr (COMM_ACK_ERR, d, w', s')
   \<and> (\<exists>d s'. ucCOMM_SendByte 0x55 [SDA_PIN] comm_init = Inr (COMM_OK, d, [], s'))"
proof
  show "ucCOMM_SendByte c w s \<noteq> Inr (COMM_ACK_ERR, d, w', s')"
    by (auto simp: ucCOMM_SendByte_def Let_def sda_and_ne_1 COMM_ACK_ERR_def COMM_OK_def COMM_ERROR_def
        split: list.splits prod.splits)
  show "\<exists>d s'. ucCOMM_SendByte 0x55 [SDA_PIN] comm_init = Inr (COMM_OK, d, [], s')"
    by (simp add: ucCOMM_SendByte_def Let_def SDA_PIN_def comm_init_def COMM_RUNNING_def COMM_TX_BUSY_def
        split: prod.splits)
qed

subsection \<open>Taking a message from the receive buffer\<close>

lemma grab_copy_loop_ok:
  "\<lbrakk>n \<le> length rx; n \<le> length dst; i \<le> n\<rbrakk>
   \<Longrightarrow> grab_copy_loop i n rx dst = Inr (take i dst @ drop i (take n rx) @ drop n dst)"
proof (induction i n rx dst rule: grab_copy_loop.induct)
  case (1 i n rx dst)
  show ?case
  proof (cases "i < n")
    case True
    with 1 have a: "i < length rx" "i < length dst" by simp_all
    from True 1 a have "grab_copy_loop (i + 1) n rx (dst[i := rx ! i])
          = Inr (take (i + 1) (dst[i := rx ! i]) @ drop (i + 1) (take n rx) @ drop n (dst[i := rx ! i]))"
      by (intro "1.IH") simp_all
    moreover have "take (i + 1) (dst[i := rx ! i]) = take i dst @ [rx ! i]"
      using a by (simp add: take_Suc_conv_app_nth)
    moreover have "drop i (take n rx) = rx ! i # drop (i + 1) (take n rx)"
      using a True by (simp add: Cons_nth_drop_Suc [symmetric])
    moreover have "drop n (dst[i := rx ! i]) = drop n dst" using True by simp
    ultimately show ?thesis using True a
      by (subst grab_copy_loop.simps) simp
  next
    case False
    with 1 have "i = n" by simp
    then show ?thesis using 1 by (subst grab_copy_loop.simps) simp
  qed
qed

lemma grab_crc_call:
  assumes len: "length rx = 64" and L: "rx ! MSG_LEN_IDX \<le> 62"
  shows "ucCRC16_compute_msg_CRC crc CRC_FOR_MSG_TO_REC rx (rx ! MSG_LEN_IDX + CRC_SZ)
         = Inr (if rx_trailer_ok crc rx then 1 else 0, rx)"
proof -
  from L have u: "unat (rx ! MSG_LEN_IDX + 2) = unat (rx ! MSG_LEN_IDX) + 2"
    and b: "unat (rx ! MSG_LEN_IDX) \<le> 62"
    by (simp_all add: word_le_nat_alt unat_word_ariths)
  have s1: "Suc (unat (rx ! MSG_LEN_IDX)) = unat (rx ! MSG_LEN_IDX) + 1" by simp
  from u b len show ?thesis
    by (simp add: ucCRC16_compute_msg_CRC_def CRC_SZ_def CRC_FOR_MSG_TO_REC_def
        CRC_FOR_MSG_TO_SEND_def rx_trailer_ok_def Let_def s1 del: One_nat_def)
qed


lemma grab_paths_eq:
  assumes len: "length (g_ucaRXBuffer s) = 64" and dl: "length dst = 64"
  shows "ucCOMM_GrabMessageFromBuffer crc s dst =
     (if g_ucRXBufferIndex s < SP_HEADERSIZE then Inr (COMM_BUFFER_UNDERFLOW, dst, s)
      else if g_ucaRXBuffer s ! MSG_LEN_IDX > MAXMSGLEN then Inr (COMM_BUFFER_UNDERFLOW, dst, s)
      else if g_ucaRXBuffer s ! MSG_LEN_IDX > 62 then Inl OutOfBounds
      else if \<not> rx_trailer_ok crc (g_ucaRXBuffer s) then Inr (COMM_ERROR, dst, s)
      else Inr (COMM_OK,
                take (unat (g_ucaRXBuffer s ! MSG_LEN_IDX)) (g_ucaRXBuffer s)
                  @ drop (unat (g_ucaRXBuffer s ! MSG_LEN_IDX)) dst,
                s\<lparr>g_ucRXBufferIndex := 0\<rparr>))"
proof -
  let ?rx = "g_ucaRXBuffer s"
  let ?L = "?rx ! MSG_LEN_IDX"
  have m: "MSG_LEN_IDX < length ?rx" using len by (simp add: MSG_LEN_IDX_def)
  show ?thesis
  proof (cases "?L \<le> 62")
    case True
    then have b: "unat ?L \<le> 62" by (simp add: word_le_nat_alt)
    from True have nm: "\<not> ?L > MAXMSGLEN" by (simp add: MAXMSGLEN_def word_le_nat_alt word_less_nat_alt)
    have cp: "grab_copy_loop 0 (unat ?L) ?rx dst = Inr (take (unat ?L) ?rx @ drop (unat ?L) dst)"
      using grab_copy_loop_ok [of "unat ?L" ?rx dst 0] b len dl by simp
    from True have n62: "\<not> ?L > 62" by simp
    show ?thesis
      unfolding ucCOMM_GrabMessageFromBuffer_def Let_def grab_crc_call [OF len True]
      using m nm n62 cp by simp
  next
    case False
    then have g: "?L > 62" by simp
    then have g': "62 < unat ?L" by (simp add: word_less_nat_alt)
    have lt: "unat ?L < 256" using unsigned_less [of ?L] by simp
    have u2: "unat (?L + 2) = (unat ?L + 2) mod 256" by (simp add: unat_word_ariths)
    have u: "64 < unat (?L + 2) \<or> unat (?L + 2) < 2"
    proof (cases "unat ?L + 2 < 256")
      case True
      with u2 g' show ?thesis by simp
    next
      case False
      with lt have "(unat ?L + 2) mod 256 = unat ?L + 2 - 256" by (simp add: mod_if)
      with u2 have "unat (?L + 2) = unat ?L + 2 - 256" by simp
      with lt show ?thesis by arith
    qed

    have c: "\<not> ?L > MAXMSGLEN \<Longrightarrow>
      ucCRC16_compute_msg_CRC crc CRC_FOR_MSG_TO_REC ?rx (?L + CRC_SZ) = Inl OutOfBounds"
      using u len by (auto simp: ucCRC16_compute_msg_CRC_def CRC_SZ_def Let_def)
    show ?thesis
      unfolding ucCOMM_GrabMessageFromBuffer_def Let_def
      using m g c by simp
  qed
qed

text \<open>
  C10: with the 64-byte receive buffer and a 64-byte destination,
  \<open>ucCOMM_GrabMessageFromBuffer\<close> takes one of these paths: receive index below the
  header size, declared length above the maximum, or trailer mismatch, each returning an
  error code with the destination and the whole state unchanged; or success, which copies
  the declared number of bytes and resets the receive index. (A declared length of 63 or
  64 makes the CRC routine read beyond the receive buffer.) Whenever it returns a code
  other than \<open>COMM_OK\<close>, destination and receive index are as before.
\<close>

theorem ucCOMM_GrabMessageFromBuffer_paths:
  assumes len: "length (g_ucaRXBuffer s) = 64" and dl: "length dst = 64"
  shows "ucCOMM_GrabMessageFromBuffer crc s dst =
     (if g_ucRXBufferIndex s < SP_HEADERSIZE then Inr (COMM_BUFFER_UNDERFLOW, dst, s)
      else if g_ucaRXBuffer s ! MSG_LEN_IDX > MAXMSGLEN then Inr (COMM_BUFFER_UNDERFLOW, dst, s)
      else if g_ucaRXBuffer s ! MSG_LEN_IDX > 62 then Inl OutOfBounds
      else if \<not> rx_trailer_ok crc (g_ucaRXBuffer s) then Inr (COMM_ERROR, dst, s)
      else Inr (COMM_OK,
                take (unat (g_ucaRXBuffer s ! MSG_LEN_IDX)) (g_ucaRXBuffer s)
                  @ drop (unat (g_ucaRXBuffer s ! MSG_LEN_IDX)) dst,
                s\<lparr>g_ucRXBufferIndex := 0\<rparr>))
   \<and> (\<forall>rc dst' s'. ucCOMM_GrabMessageFromBuffer crc s dst = Inr (rc, dst', s') \<longrightarrow> rc \<noteq> COMM_OK
         \<longrightarrow> dst' = dst \<and> g_ucRXBufferIndex s' = g_ucRXBufferIndex s)"
proof (rule conjI [OF grab_paths_eq [OF len dl]], intro allI impI)
  fix rc dst' s'
  assume "ucCOMM_GrabMessageFromBuffer crc s dst = Inr (rc, dst', s')" and "rc \<noteq> COMM_OK"
  then show "dst' = dst \<and> g_ucRXBufferIndex s' = g_ucRXBufferIndex s"
    unfolding grab_paths_eq [OF len dl] by (auto split: if_splits)
qed

lemma grab_ignores_flags:
  "ucCOMM_GrabMessageFromBuffer crc (s\<lparr>g_ucCOMM_Flags := f\<rparr>) dst =
   map_sum id (\<lambda>(rc, d, t). (rc, d, t\<lparr>g_ucCOMM_Flags := f\<rparr>)) (ucCOMM_GrabMessageFromBuffer crc s dst)"
  by (simp add: ucCOMM_GrabMessageFromBuffer_def Let_def split: sum.splits)


lemma parity_flag_sticky:
  assumes "ucCOMM_ReceiveByte w s = Inr (rc, w', s')"
    and "g_ucCOMM_Flags s AND COMM_PARITY_ERR \<noteq> 0"
  shows "g_ucCOMM_Flags s' AND COMM_PARITY_ERR \<noteq> 0"
proof -
  have k: "((f OR COMM_RX_BUSY) AND NOT COMM_RX_BUSY) AND COMM_PARITY_ERR = f AND COMM_PARITY_ERR" for f
    by (simp add: COMM_RX_BUSY_def COMM_PARITY_ERR_def and.assoc bit.conj_disj_distrib2)
  have k2: "(g OR COMM_PARITY_ERR) AND COMM_PARITY_ERR \<noteq> 0" for g
    by (simp add: COMM_PARITY_ERR_def bit.conj_disj_distrib2)
  from assms show ?thesis
    by (auto simp: ucCOMM_ReceiveByte_def Let_def k k2 split: if_splits sum.splits list.splits)
qed

text \<open>
  C8: when the parity computed over the eight sampled bits differs from the received
  parity bit, \<open>ucCOMM_ReceiveByte\<close> sets \<open>COMM_PARITY_ERR\<close>, still stores the byte at the
  receive index, advances the index and returns \<open>COMM_OK\<close>; and the result of
  \<open>ucCOMM_GrabMessageFromBuffer\<close> does not depend on the flags.
\<close>

theorem ucCOMM_ReceiveByte_parity_mismatch:
  assumes nb: "g_ucCOMM_Flags s AND COMM_RX_BUSY = 0"
    and i: "unat (g_ucRXBufferIndex s) < length (g_ucaRXBuffer s)"
    and smp: "rx_sample_loop 8 w 0 0 = Inr (b, cnt, x # w')"
    and mis: "cnt mod 2 \<noteq> (if x AND SDA_PIN \<noteq> 0 then 1 else 0)"
  shows "(\<exists>s'. ucCOMM_ReceiveByte w s = Inr (COMM_OK, w', s')
            \<and> g_ucCOMM_Flags s' AND COMM_PARITY_ERR \<noteq> 0
            \<and> g_ucaRXBuffer s' = (g_ucaRXBuffer s)[unat (g_ucRXBufferIndex s) := b]
            \<and> g_ucRXBufferIndex s' = g_ucRXBufferIndex s + 1)
       \<and> ucCOMM_GrabMessageFromBuffer crc (t\<lparr>g_ucCOMM_Flags := f\<rparr>) dst =
           map_sum id (\<lambda>(rc, d, t'). (rc, d, t'\<lparr>g_ucCOMM_Flags := f\<rparr>))
             (ucCOMM_GrabMessageFromBuffer crc t dst)"
proof -
  have k2: "(g OR COMM_PARITY_ERR) AND COMM_PARITY_ERR \<noteq> 0" for g
    by (simp add: COMM_PARITY_ERR_def bit.conj_disj_distrib2)
  from nb i smp mis have
    "\<exists>s'. ucCOMM_ReceiveByte w s = Inr (COMM_OK, w', s')
            \<and> g_ucCOMM_Flags s' AND COMM_PARITY_ERR \<noteq> 0
            \<and> g_ucaRXBuffer s' = (g_ucaRXBuffer s)[unat (g_ucRXBufferIndex s) := b]
            \<and> g_ucRXBufferIndex s' = g_ucRXBufferIndex s + 1"
    by (simp add: ucCOMM_ReceiveByte_def Let_def k2 COMM_PARITY_ERR_def)
  then show ?thesis using grab_ignores_flags [where crc = crc and s = t and f = f and dst = dst] by simp
qed

theorem ucCOMM_ReceiveByte_parity_mismatch_witness:
  "\<exists>s'. ucCOMM_ReceiveByte (replicate 8 0 @ [SDA_PIN]) comm_init = Inr (COMM_OK, [], s')
        \<and> g_ucCOMM_Flags s' AND COMM_PARITY_ERR \<noteq> 0
        \<and> g_ucaRXBuffer s' = (g_ucaRXBuffer comm_init)[0 := 0]
        \<and> g_ucRXBufferIndex s' = 1"
proof -
  have a: "g_ucCOMM_Flags comm_init AND COMM_RX_BUSY = 0" by code_simp
  have b: "unat (g_ucRXBufferIndex comm_init) < length (g_ucaRXBuffer comm_init)" by code_simp
  have c: "rx_sample_loop 8 (replicate 8 0 @ [SDA_PIN]) 0 0 = Inr (0, 0, SDA_PIN # [])" by code_simp
  have d: "(0 :: uint8) mod 2 \<noteq> (if SDA_PIN AND SDA_PIN \<noteq> 0 then 1 else 0)" by code_simp
  have e: "unat (g_ucRXBufferIndex comm_init) = 0" "g_ucRXBufferIndex comm_init + 1 = 1" by code_simp+
  from ucCOMM_ReceiveByte_parity_mismatch [OF a b c d] show ?thesis
    unfolding e by blast
qed

text \<open>
  A receive buffer that holds a header declaring four bytes and a trailer that does not
  match, and a destination buffer.
\<close>

definition rx_bad_trailer :: comm_state where
  "rx_bad_trailer =
     \<lparr>g_ucCOMM_Flags = COMM_RUNNING,
      g_ucaRXBuffer = [0x04, 0x04, 0x78, 0x00, 0x00, 0x00] @ replicate 58 0xFF,
      g_ucRXBufferIndex = 0x06, P1OUT = 0x02\<rparr>"

theorem ucCOMM_GrabMessageFromBuffer_paths_witness:
  "ucCOMM_GrabMessageFromBuffer (crc16 0x1021 0xFFFF) rx_bad_trailer (replicate 64 0) =
     Inr (COMM_ERROR, replicate 64 0, rx_bad_trailer)"
proof -
  have a: "length (g_ucaRXBuffer rx_bad_trailer) = 64" by code_simp
  have b: "length (replicate 64 (0 :: uint8)) = 64" by code_simp
  have c: "\<not> g_ucRXBufferIndex rx_bad_trailer < SP_HEADERSIZE" by code_simp
  have d: "\<not> g_ucaRXBuffer rx_bad_trailer ! MSG_LEN_IDX > MAXMSGLEN" by code_simp
  have e: "\<not> g_ucaRXBuffer rx_bad_trailer ! MSG_LEN_IDX > 62" by code_simp
  have f: "\<not> rx_trailer_ok (crc16 0x1021 0xFFFF) (g_ucaRXBuffer rx_bad_trailer)" by code_simp
  from ucCOMM_GrabMessageFromBuffer_paths [OF a b, of "crc16 0x1021 0xFFFF"] c d e f
  show ?thesis by simp
qed

subsection \<open>Sending a message\<close>

lemma send_loop_prefix:
  "send_loop sim_sendbyte buf len p lc ec (script, sent) = Inr (script', sent')
   \<Longrightarrow> \<exists>k. sent' = sent @ take k (drop p buf)"
proof (induction sim_sendbyte buf len p lc ec "(script, sent)" arbitrary: script sent rule: send_loop.induct)
  case (1 buf len p lc ec)
  show ?case
  proof (cases "lc < len")
    case False
    with 1(3) have "sent' = sent" by (simp add: send_loop.simps)
    then show ?thesis by (intro exI [of _ 0]) simp
  next
    case True
    show ?thesis
    proof (cases "p < length buf")
      case False
      with True 1(3) show ?thesis by (simp add: send_loop.simps)
    next
      case pl: True
      obtain rc scr1 where sb: "sim_sendbyte (buf ! p) (script, sent) = Inr (rc, scr1, sent @ [buf ! p])"
        by (cases script) (auto simp: sim_sendbyte_def)
      have ext: "\<exists>k. sent' = sent @ take k (drop p buf)" if "sent' = (sent @ [buf ! p]) @ take j (drop (p + 1) buf)" for j
      proof -
        have "drop p buf = buf ! p # drop (p + 1) buf" using pl by (simp add: Cons_nth_drop_Suc)
        then have "sent @ take (Suc j) (drop p buf) = (sent @ [buf ! p]) @ take j (drop (p + 1) buf)" by simp
        with that show ?thesis by metis
      qed
      show ?thesis
      proof (cases "rc \<noteq> COMM_OK")
        case f: True
        show ?thesis
        proof (cases "ec + 1 = 5")
          case True
          with f sb pl \<open>lc < len\<close> 1(3) have "sent' = sent @ [buf ! p]"
            by (simp add: send_loop.simps [of _ _ _ p])
          then have "sent' = (sent @ [buf ! p]) @ take 0 (drop (p + 1) buf)" by simp
          then show ?thesis by (rule ext)
        next
          case False
          with f sb pl \<open>lc < len\<close> 1(3) have
            r: "send_loop sim_sendbyte buf len (p + 1) (lc - 1 + 1) (ec + 1) (scr1, sent @ [buf ! p]) = Inr (script', sent')"
            by (simp add: send_loop.simps [of _ _ _ p])
          from 1(1) [OF \<open>lc < len\<close> pl sb refl f False r] obtain j
            where "sent' = (sent @ [buf ! p]) @ take j (drop (p + 1) buf)" by auto
          then show ?thesis by (rule ext)
        qed
      next
        case s: False
        with sb pl \<open>lc < len\<close> 1(3) have
          r: "send_loop sim_sendbyte buf len (p + 1) (lc + 1) ec (scr1, sent @ [buf ! p]) = Inr (script', sent')"
          by (simp add: send_loop.simps [of _ _ _ p])
        from 1(2) [OF \<open>lc < len\<close> pl sb refl s r] obtain j
          where "sent' = (sent @ [buf ! p]) @ take j (drop (p + 1) buf)" by auto
        then show ?thesis by (rule ext)
      qed
    qed
  qed
qed

text \<open>
  C4: the source means to resend a byte whose transmission failed ("Decrement the loop
  count to attempt to resend the byte"), but \<open>*pBuff++\<close> has already moved on: the bytes
  handed to the byte routine are always consecutive positions of the buffer
  (\<open>send_loop_prefix\<close>). With no failure the six bytes of the message go out. When the
  first attempt fails, the first byte is never sent again; the call sends the following
  bytes and ends with the byte behind the message. The error count is kept for the whole
  message and is not reset by a success: five failures that alternate with successes
  abandon the message after nine calls, with four bytes of six transmitted.
\<close>

theorem vCOMM_SendMessage_retry_skips_byte:
  "sent_bytes (vCOMM_SendMessage (crc16 0x1021 0xFFFF) sim_sendbyte msg4 4 ([], []))
     = Some [0x07, 0x04, 0x78, 0x00, 0x88, 0xDD]
   \<and> sent_bytes (vCOMM_SendMessage (crc16 0x1021 0xFFFF) sim_sendbyte msg4 4 ([COMM_ACK_ERR], []))
     = Some [0x07, 0x04, 0x78, 0x00, 0x88, 0xDD, 0xA2]
   \<and> sent_bytes (vCOMM_SendMessage (crc16 0x1021 0xFFFF) sim_sendbyte msg4 4
        ([COMM_ACK_ERR, COMM_OK, COMM_ACK_ERR, COMM_OK, COMM_ACK_ERR, COMM_OK, COMM_ACK_ERR,
          COMM_OK, COMM_ACK_ERR], []))
     = Some [0x07, 0x04, 0x78, 0x00, 0x88, 0xDD, 0xA2, 0xA3, 0xEE]"
  by code_simp

subsection \<open>The checksum\<close>

lemma xor_cancel_right: "a XOR k = b XOR k \<Longrightarrow> a = (b :: uint16)"
proof -
  assume "a XOR k = b XOR k"
  then have "(a XOR k) XOR k = (b XOR k) XOR k" by simp
  then show ?thesis by (simp add: xor.assoc)
qed

lemma xor_cancel_left: "k XOR a = k XOR b \<Longrightarrow> a = (b :: uint16)"
  by (rule xor_cancel_right [of a k b]) (simp add: xor.commute)

lemma crc16_bit_inj:
  assumes odd: "odd poly" and eq: "crc16_bit poly a = crc16_bit poly b"
  shows "a = b"
proof -
  have top: "bit (crc16_bit poly c) 0 = bit c 15" for c
    using odd by (simp add: crc16_bit_def bit_0 even_xor_iff)
  from eq have t: "bit a 15 = bit b 15" using top [of a] top [of b] by simp
  with eq have p: "push_bit 1 a = push_bit 1 b"
    by (auto simp: crc16_bit_def split: if_splits dest: xor_cancel_right)
  show ?thesis
  proof (rule bit_word_eqI)
    fix n
    assume n: "n < LENGTH(16)"
    show "bit a n = bit b n"
    proof (cases "n = 15")
      case True
      with t show ?thesis by simp
    next
      case False
      with n have "Suc n < 16" by simp
      then have "bit (push_bit 1 c) (Suc n) = bit c n" for c :: uint16
        by (subst bit_push_bit_iff) (simp add: possible_bit_word)
      with p show ?thesis by metis
    qed
  qed
qed

lemma crc16_bits_inj:
  "odd poly \<Longrightarrow> crc16_bits n poly a = crc16_bits n poly b \<Longrightarrow> a = b"
  by (induction n arbitrary: a b) (auto dest: crc16_bit_inj)

lemma crc16_byte_inj_state:
  assumes "odd poly" and "crc16_byte poly a x = crc16_byte poly b x"
  shows "a = b"
proof -
  from assms have "a XOR push_bit 8 (ucast x) = b XOR push_bit 8 (ucast x)"
    unfolding crc16_byte_def by (rule crc16_bits_inj)
  then show ?thesis by (rule xor_cancel_right)
qed

lemma push_ucast_inj:
  assumes "push_bit 8 (ucast x :: uint16) = push_bit 8 (ucast y)"
  shows "x = (y :: uint8)"
proof (rule bit_word_eqI)
  fix n
  assume n: "n < LENGTH(8)"
  have "bit (push_bit 8 (ucast z :: uint16)) (n + 8) = bit z n" for z :: uint8
    using n by (simp add: bit_simps)
  with assms show "bit x n = bit y n" by metis
qed

lemma crc16_byte_inj_byte:
  assumes "odd poly" and "crc16_byte poly c x = crc16_byte poly c y"
  shows "x = y"
proof -
  from assms have "c XOR push_bit 8 (ucast x) = c XOR push_bit 8 (ucast y)"
    unfolding crc16_byte_def by (rule crc16_bits_inj)
  then have "push_bit 8 (ucast x :: uint16) = push_bit 8 (ucast y)" by (rule xor_cancel_left)
  then show ?thesis by (rule push_ucast_inj)
qed

lemma crc16_foldl_inj:
  "odd poly \<Longrightarrow> foldl (crc16_byte poly) a bs = foldl (crc16_byte poly) b bs \<Longrightarrow> a = b"
proof (induction bs arbitrary: a b)
  case Nil
  then show ?case by simp
next
  case (Cons x bs)
  from Cons.prems have "crc16_byte poly a x = crc16_byte poly b x"
    by (auto dest: Cons.IH)
  with Cons.prems(1) show ?case by (rule crc16_byte_inj_state)
qed

lemma crc16_single_byte:
  assumes odd: "odd poly" and i: "i < length bs" and v: "v \<noteq> bs ! i"
  shows "crc16 poly init (bs[i := v]) \<noteq> crc16 poly init bs"
proof
  assume eq: "crc16 poly init (bs[i := v]) = crc16 poly init bs"
  let ?f = "crc16_byte poly"
  let ?c = "foldl ?f init (take i bs)"
  have a: "bs = take i bs @ bs ! i # drop (Suc i) bs" using i by (simp add: id_take_nth_drop [symmetric])
  have b: "bs[i := v] = take i bs @ v # drop (Suc i) bs" using i by (simp add: upd_conv_take_nth_drop)
  have "crc16 poly init bs = foldl ?f (?f ?c (bs ! i)) (drop (Suc i) bs)"
    by (subst a) (simp add: crc16_def)
  moreover have "crc16 poly init (bs[i := v]) = foldl ?f (?f ?c v) (drop (Suc i) bs)"
    by (subst b) (simp add: crc16_def)
  ultimately have "foldl ?f (?f ?c v) (drop (Suc i) bs) = foldl ?f (?f ?c (bs ! i)) (drop (Suc i) bs)"
    using eq by simp
  with odd have "?f ?c v = ?f ?c (bs ! i)" by (rule crc16_foldl_inj)
  with odd have "v = bs ! i" by (rule crc16_byte_inj_byte)
  with v show False by simp
qed

lemma hi_lo_eq:
  assumes "(ucast (drop_bit 8 c) :: uint8) = ucast (drop_bit 8 d)" and "(ucast c :: uint8) = ucast d"
  shows "c = (d :: uint16)"
proof (rule bit_word_eqI)
  fix n
  assume n: "n < LENGTH(16)"
  show "bit c n = bit d n"
  proof (cases "n < 8")
    case True
    then have "bit (ucast e :: uint8) n = bit e n" for e :: uint16 by (simp add: bit_simps)
    with assms(2) show ?thesis by metis
  next
    case False
    with n have m: "n - 8 < 8" and e: "n - 8 + 8 = n" by simp_all
    then have "bit (ucast (drop_bit 8 e) :: uint8) (n - 8) = bit e n" for e :: uint16
      by (simp add: bit_simps add.commute)
    with assms(1) show ?thesis by metis
  qed
qed

subsection \<open>A message sent and received\<close>

lemma send_crc_buffer:
  assumes tx: "vCOMM_SendMessage crc sendbyte msg L e = Inr (tx, e')"
    and L: "L \<le> 62" and len: "length msg = 64"
  shows "tx = msg[unat L := ucast (drop_bit 8 (crc (take (unat L) msg))),
                  unat L + 1 := ucast (crc (take (unat L) msg))]"
proof -
  from L have u: "unat (L + 2) = unat L + 2" by (simp add: word_le_nat_alt u8_plus2)
  from tx u len show ?thesis
    by (auto simp: vCOMM_SendMessage_def ucCRC16_compute_msg_CRC_def Let_def CRC_SZ_def
        CRC_FOR_MSG_TO_SEND_def split: sum.splits if_splits)
qed

text \<open>
  C2, as the code has it, for the checksum modelled from the specification over any
  generator polynomial with constant term 1. A message of declared length \<open>L\<close> in
  [4, 62], with the CRC appended as \<open>vCOMM_SendMessage\<close> does in the caller's 64-byte
  buffer, and its \<open>L + 2\<close> bytes received into the 64-byte receive buffer, is accepted
  by \<open>ucCOMM_GrabMessageFromBuffer\<close>, which copies its \<open>L\<close> bytes; with any single
  payload byte changed, the call returns \<open>COMM_ERROR\<close> and copies nothing. (With
  \<open>L\<close> = 63 or 64 the trailer lies outside both buffers.)
\<close>

theorem crc_round_trip:
  assumes odd: "odd poly"
    and L: "4 \<le> L" "L \<le> 62"
    and msg: "length msg = 64" "msg ! MSG_LEN_IDX = L"
    and tx: "vCOMM_SendMessage (crc16 poly init) sendbyte msg L e = Inr (tx, e')"
    and rx: "length (g_ucaRXBuffer s) = 64"
            "take (unat L + 2) (g_ucaRXBuffer s) = take (unat L + 2) tx"
    and idx: "g_ucRXBufferIndex s = L + CRC_SZ"
    and dst: "length dst = 64"
  shows "ucCOMM_GrabMessageFromBuffer (crc16 poly init) s dst =
           Inr (COMM_OK, take (unat L) msg @ drop (unat L) dst, s\<lparr>g_ucRXBufferIndex := 0\<rparr>)
       \<and> (\<forall>i v. MSG_PAYLD_IDX \<le> i \<and> i < unat L \<and> v \<noteq> g_ucaRXBuffer s ! i \<longrightarrow>
             ucCOMM_GrabMessageFromBuffer (crc16 poly init)
               (s\<lparr>g_ucaRXBuffer := (g_ucaRXBuffer s)[i := v]\<rparr>) dst =
             Inr (COMM_ERROR, dst, s\<lparr>g_ucaRXBuffer := (g_ucaRXBuffer s)[i := v]\<rparr>))"
proof -
  let ?crc = "crc16 poly init"
  let ?n = "unat L"
  let ?rx = "g_ucaRXBuffer s"
  let ?c = "?crc (take ?n msg)"
  let ?hi = "ucast (drop_bit 8 ?c) :: uint8" and ?lo = "ucast ?c :: uint8"
  from L have n: "4 \<le> ?n" "?n \<le> 62" by (simp_all add: word_le_nat_alt)
  have txe: "tx = msg[?n := ?hi, ?n + 1 := ?lo]"
    by (rule send_crc_buffer [OF tx L(2) msg(1)])
  have nth: "?rx ! j = tx ! j" if "j < ?n + 2" for j
    using that rx(2) by (metis nth_take)
  have r1: "?rx ! MSG_LEN_IDX = L"
    using nth [of 1] n msg txe by (simp add: MSG_LEN_IDX_def)
  have tk: "take ?n ?rx = take ?n msg"
  proof -
    have "take ?n ?rx = take ?n (take (?n + 2) ?rx)" by simp
    also have "\<dots> = take ?n (take (?n + 2) tx)" by (simp only: rx(2))
    also have "\<dots> = take ?n tx" by simp
    also have "\<dots> = take ?n msg" unfolding txe by simp
    finally show ?thesis .
  qed
  have rn: "?rx ! ?n = ?hi" "?rx ! (?n + 1) = ?lo"
    using nth [of ?n] nth [of "?n + 1"] n msg(1) unfolding txe by simp_all
  have u2: "unat (L + 2) = ?n + 2" using n by (simp add: u8_plus2)
  have i4: "\<not> g_ucRXBufferIndex s < SP_HEADERSIZE"
    using n u2 unfolding idx
    by (simp add: SP_HEADERSIZE_def CRC_SZ_def word_less_nat_alt)
  have lm: "\<not> L > MAXMSGLEN" "\<not> L > 62"
    using n by (simp_all add: MAXMSGLEN_def word_less_nat_alt)
  have ok: "rx_trailer_ok ?crc ?rx"
    using rn by (simp add: rx_trailer_ok_def Let_def r1 tk)
  have good: "ucCOMM_GrabMessageFromBuffer ?crc s dst =
           Inr (COMM_OK, take ?n msg @ drop ?n dst, s\<lparr>g_ucRXBufferIndex := 0\<rparr>)"
    using grab_paths_eq [OF rx(1) dst, of ?crc] i4 lm ok by (simp add: r1 tk)
  have bad: "ucCOMM_GrabMessageFromBuffer ?crc (s\<lparr>g_ucaRXBuffer := ?rx[i := v]\<rparr>) dst =
             Inr (COMM_ERROR, dst, s\<lparr>g_ucaRXBuffer := ?rx[i := v]\<rparr>)"
    if h: "MSG_PAYLD_IDX \<le> i \<and> i < ?n \<and> v \<noteq> ?rx ! i" for i v
  proof -
    let ?s' = "s\<lparr>g_ucaRXBuffer := ?rx[i := v]\<rparr>"
    let ?rx' = "?rx[i := v]"
    from h have i: "4 \<le> i" "i < ?n" and v: "v \<noteq> ?rx ! i" by (simp_all add: MSG_PAYLD_IDX_def)
    have r1': "?rx' ! MSG_LEN_IDX = L" using r1 i by (simp add: MSG_LEN_IDX_def)
    have tk': "take ?n ?rx' = (take ?n msg)[i := v]"
      using tk by (simp add: take_update_swap)
    have vi: "v \<noteq> take ?n msg ! i" using v i tk by (metis nth_take)
    have il: "i < length (take ?n msg)" using i n msg(1) by simp
    have ne: "?crc ((take ?n msg)[i := v]) \<noteq> ?c"
      by (rule crc16_single_byte [OF odd il vi])
    have rn': "?rx' ! ?n = ?hi" "?rx' ! (?n + 1) = ?lo" using rn i by simp_all
    have nok: "\<not> rx_trailer_ok ?crc ?rx'"
    proof
      assume "rx_trailer_ok ?crc ?rx'"
      then have "?hi = ucast (drop_bit 8 (?crc ((take ?n msg)[i := v])))"
        and "?lo = ucast (?crc ((take ?n msg)[i := v]))"
        using rn' by (simp_all add: rx_trailer_ok_def Let_def r1' tk')
      then have "?c = ?crc ((take ?n msg)[i := v])" by (rule hi_lo_eq)
      with ne show False by simp
    qed
    have i4': "\<not> g_ucRXBufferIndex ?s' < SP_HEADERSIZE" using i4 by simp
    have len': "length (g_ucaRXBuffer ?s') = 64" using rx(1) by simp
    show ?thesis
      using grab_paths_eq [OF len' dst, of ?crc] i4' lm nok r1' by simp
  qed
  from good bad show ?thesis by blast
qed

text \<open>
  A data report of six bytes in a caller's buffer, the same buffer with the CRC appended,
  and a receiver that has taken the eight bytes from the wire.
\<close>

definition msg6 :: "uint8 list" where
  "msg6 = [0x02, 0x06, 0x78, 0x01, 0xAA, 0xBB] @ replicate 58 0"

definition tx6 :: "uint8 list" where
  "tx6 = [0x02, 0x06, 0x78, 0x01, 0xAA, 0xBB, 0x5C, 0x56] @ replicate 56 0"

definition rx6 :: comm_state where
  "rx6 = \<lparr>g_ucCOMM_Flags = COMM_RUNNING,
          g_ucaRXBuffer = [0x02, 0x06, 0x78, 0x01, 0xAA, 0xBB, 0x5C, 0x56] @ replicate 56 0xFF,
          g_ucRXBufferIndex = 0x08, P1OUT = 0x02\<rparr>"

theorem crc_round_trip_witness:
  "ucCOMM_GrabMessageFromBuffer (crc16 0x1021 0xFFFF) rx6 (replicate 64 0) =
     Inr (COMM_OK, take (unat (6 :: uint8)) msg6 @ drop (unat (6 :: uint8)) (replicate 64 0),
          rx6\<lparr>g_ucRXBufferIndex := 0\<rparr>)
   \<and> ucCOMM_GrabMessageFromBuffer (crc16 0x1021 0xFFFF)
       (rx6\<lparr>g_ucaRXBuffer := (g_ucaRXBuffer rx6)[4 := 0xAB]\<rparr>) (replicate 64 0) =
     Inr (COMM_ERROR, replicate 64 0, rx6\<lparr>g_ucaRXBuffer := (g_ucaRXBuffer rx6)[4 := 0xAB]\<rparr>)"
proof -
  have odd: "odd (0x1021 :: uint16)" by simp
  have L: "4 \<le> (6 :: uint8)" "(6 :: uint8) \<le> 62" by simp_all
  have msg: "length msg6 = 64" "msg6 ! MSG_LEN_IDX = 6" by code_simp+
  have tx: "vCOMM_SendMessage (crc16 0x1021 0xFFFF) sim_sendbyte msg6 6 ([], [])
              = Inr (tx6, ([], take 8 tx6))"
    by code_simp
  have rx: "length (g_ucaRXBuffer rx6) = 64"
    "take (unat (6 :: uint8) + 2) (g_ucaRXBuffer rx6) = take (unat (6 :: uint8) + 2) tx6"
    by code_simp+
  have idx: "g_ucRXBufferIndex rx6 = 6 + CRC_SZ" by code_simp
  have dst: "length (replicate 64 (0 :: uint8)) = 64" by simp
  have i: "MSG_PAYLD_IDX \<le> 4 \<and> 4 < unat (6 :: uint8) \<and> (0xAB :: uint8) \<noteq> g_ucaRXBuffer rx6 ! 4"
    by code_simp
  from crc_round_trip [OF odd L msg tx rx idx dst] i show ?thesis by blast
qed

text \<open>
  C2 as stated fails for the declared lengths 63 and 64: in a caller's 64-byte buffer
  \<open>vCOMM_SendMessage\<close> would write the second CRC byte behind the buffer, and
  \<open>ucCOMM_GrabMessageFromBuffer\<close> would read the 65th byte of the 64-byte receive
  buffer; neither call accepts the message.
\<close>

definition msg63 :: "uint8 list" where
  "msg63 = [0x02, 0x3F, 0x78, 0x01] @ replicate 60 0"

definition rx63 :: comm_state where
  "rx63 = \<lparr>g_ucCOMM_Flags = COMM_RUNNING, g_ucaRXBuffer = msg63,
           g_ucRXBufferIndex = 0x40, P1OUT = 0x02\<rparr>"

theorem crc_round_trip_counterexample:
  "msg63 ! MSG_LEN_IDX = 63
   \<and> vCOMM_SendMessage (crc16 0x1021 0xFFFF) sim_sendbyte msg63 63 ([], []) = Inl OutOfBounds
   \<and> ucCOMM_GrabMessageFromBuffer (crc16 0x1021 0xFFFF) rx63 (replicate 64 0) = Inl OutOfBounds"
  by code_simp

section \<open>Properties of STM.c\<close>

subsection \<open>The checksum of a sensor line\<close>

lemma unat_idx_suc: "unat (idx :: uint8) < 20 \<Longrightarrow> unat (idx + 1) = unat idx + 1"
  by (simp add: unat_word_ariths)

lemma chk_loop_run:
  assumes len: "length buf = 20"
  shows "\<lbrakk>unat idx + Suc d = k; k < 20; buf ! k = 0x0D; \<forall>j. unat idx < j \<and> j < k \<longrightarrow> buf ! j \<noteq> 0x0D\<rbrakk>
   \<Longrightarrow> chk_loop buf idx add = Inr (of_nat k, add + byte_sum (take (Suc d) (drop (unat idx) buf)))"
proof (induction d arbitrary: idx add)
  case 0
  then have i: "unat idx < 20" and u: "unat (idx + 1) = k" by (simp_all add: unat_idx_suc)
  have "of_nat (unat (idx + 1)) = idx + 1" by simp
  with u have e: "idx + 1 = of_nat k" by simp
  have t: "take (Suc 0) (drop (unat idx) buf) = [buf ! unat idx]"
    using i len by (simp add: take_Suc_conv_app_nth)
  show ?case
    using 0 i u len
    by (subst chk_loop.simps) (simp add: stm_rd_def RX_BUFFER_SIZE_STM_def e t byte_sum_def)
next
  case (Suc d)
  then have i: "unat idx < 20" and u: "unat (idx + 1) = unat idx + 1" by (simp_all add: unat_idx_suc)
  from Suc.prems u have ne: "buf ! unat (idx + 1) \<noteq> 0x0D" and i1: "unat (idx + 1) < 20" by simp_all
  have "chk_loop buf (idx + 1) (add + uint (buf ! unat idx)) =
        Inr (of_nat k, add + uint (buf ! unat idx) + byte_sum (take (Suc d) (drop (unat (idx + 1)) buf)))"
    using Suc.prems u by (intro Suc.IH) simp_all
  moreover have "take (Suc (Suc d)) (drop (unat idx) buf)
      = buf ! unat idx # take (Suc d) (drop (unat (idx + 1)) buf)"
    using i len u by (simp add: Cons_nth_drop_Suc [symmetric])
  ultimately show ?case
    using i i1 ne len
    by (subst chk_loop.simps) (simp add: stm_rd_def RX_BUFFER_SIZE_STM_def byte_sum_def)
qed

lemma cSTM_Test_Checksum_eq:
  assumes t: "terminator_at (g_ucaSTM_RXBuffer s) k"
  shows "cSTM_Test_Checksum s =
     Inr (if uint (g_ucaSTM_RXBuffer s ! (k + 2)) = byte_sum (take (k + 2) (g_ucaSTM_RXBuffer s)) mod 64 + 32
          then 0 else 1,
          s\<lparr>g_ucSTM_RXBufferIndex := of_nat k\<rparr>)"
proof -
  let ?buf = "g_ucaSTM_RXBuffer s"
  from t have len: "length ?buf = 20" and k: "1 \<le> k" "k + 2 < 20" and cr: "?buf ! k = 0x0D"
    and first: "\<forall>j. 1 \<le> j \<and> j < k \<longrightarrow> ?buf ! j \<noteq> 0x0D"
    by (auto simp: terminator_at_def RX_BUFFER_SIZE_STM_def list_all_iff)
  have sk: "Suc (k - 1) = k" using k by simp
  have "chk_loop ?buf 0 0 = Inr (of_nat k, 0 + byte_sum (take (Suc (k - 1)) (drop (unat (0 :: uint8)) ?buf)))"
    using k cr first by (intro chk_loop_run [OF len]) simp_all
  then have l: "chk_loop ?buf 0 0 = Inr (of_nat k, byte_sum (take k ?buf))"
    unfolding sk by simp
  have uk: "unat (of_nat k :: uint8) = k" using k by (simp add: unat_of_nat)
  have s2: "take (k + 2) ?buf = take k ?buf @ [?buf ! k, ?buf ! (k + 1)]"
  proof -
    have "take (Suc (Suc k)) ?buf = take (Suc k) ?buf @ [?buf ! Suc k]"
      using k len by (intro take_Suc_conv_app_nth) simp
    also have "take (Suc k) ?buf = take k ?buf @ [?buf ! k]"
      using k len by (intro take_Suc_conv_app_nth) simp
    finally show ?thesis by simp
  qed
  have bs: "byte_sum (take (k + 2) ?buf) = byte_sum (take k ?buf) + uint (?buf ! k) + uint (?buf ! (k + 1))"
    unfolding s2 by (simp add: byte_sum_def)
  show ?thesis
    using k len bs
    by (simp add: cSTM_Test_Checksum_def Let_def l uk stm_rd_def RX_BUFFER_SIZE_STM_def)
qed


lemma byte_sum_update:
  "j < length bs \<Longrightarrow> byte_sum (bs[j := v]) = byte_sum bs - uint (bs ! j) + uint v"
proof (induction bs arbitrary: j)
  case Nil
  then show ?case by simp
next
  case (Cons b bs)
  then show ?case by (cases j) (simp_all add: byte_sum_def)
qed

lemma stm_accepts_iff:
  assumes "terminator_at (g_ucaSTM_RXBuffer s) k"
  shows "stm_accepts s \<longleftrightarrow>
    uint (g_ucaSTM_RXBuffer s ! (k + 2)) = byte_sum (take (k + 2) (g_ucaSTM_RXBuffer s)) mod 64 + 32"
  by (simp add: stm_accepts_def ret_code_def cSTM_Test_Checksum_eq [OF assms])

text \<open>
  C5, as the code has it. The search for the terminator starts at index 1 (the loop adds
  the byte at index 0 before it looks at anything). With the first carriage return at
  index 1 or above at position \<open>k\<close>, \<open>cSTM_Test_Checksum\<close> accepts the buffer exactly
  when the byte at \<open>k + 2\<close> equals the sum of the bytes at 0 .. \<open>k + 1\<close> modulo 64,
  plus 32. For an accepted buffer, changing the checksum byte causes rejection; changing
  one summed byte other than the terminator (to a value other than a carriage return,
  when it stands before the terminator) causes rejection unless old and new value differ
  by a multiple of 64.
\<close>

theorem cSTM_Test_Checksum_accepts:
  assumes t: "terminator_at (g_ucaSTM_RXBuffer s) k"
  shows "(stm_accepts s \<longleftrightarrow>
            uint (g_ucaSTM_RXBuffer s ! (k + 2)) = byte_sum (take (k + 2) (g_ucaSTM_RXBuffer s)) mod 64 + 32)
       \<and> (stm_accepts s \<longrightarrow>
            (\<forall>v. v \<noteq> g_ucaSTM_RXBuffer s ! (k + 2)
               \<longrightarrow> \<not> stm_accepts (s\<lparr>g_ucaSTM_RXBuffer := (g_ucaSTM_RXBuffer s)[k + 2 := v]\<rparr>)))
       \<and> (stm_accepts s \<longrightarrow>
            (\<forall>j v. j \<le> k + 1 \<and> j \<noteq> k \<and> (1 \<le> j \<and> j < k \<longrightarrow> v \<noteq> 0x0D)
                   \<and> (uint v - uint (g_ucaSTM_RXBuffer s ! j)) mod 64 \<noteq> 0
               \<longrightarrow> \<not> stm_accepts (s\<lparr>g_ucaSTM_RXBuffer := (g_ucaSTM_RXBuffer s)[j := v]\<rparr>)))"
proof (intro conjI impI allI)
  let ?buf = "g_ucaSTM_RXBuffer s"
  from t have len: "length ?buf = 20" and k: "1 \<le> k" "k + 2 < 20" and cr: "?buf ! k = 0x0D"
    and first: "\<forall>j. 1 \<le> j \<and> j < k \<longrightarrow> ?buf ! j \<noteq> 0x0D"
    by (auto simp: terminator_at_def RX_BUFFER_SIZE_STM_def list_all_iff)
  show "stm_accepts s \<longleftrightarrow> uint (?buf ! (k + 2)) = byte_sum (take (k + 2) ?buf) mod 64 + 32"
    by (rule stm_accepts_iff [OF t])
  {
    fix v :: uint8
    assume acc: "stm_accepts s" and v: "v \<noteq> ?buf ! (k + 2)"
    let ?s' = "s\<lparr>g_ucaSTM_RXBuffer := ?buf[k + 2 := v]\<rparr>"
    have t': "terminator_at (g_ucaSTM_RXBuffer ?s') k"
      using t by (auto simp: terminator_at_def list_all_iff)
    from v have "uint v \<noteq> uint (?buf ! (k + 2))" by (simp add: word_uint_eq_iff)
    with acc show "\<not> stm_accepts ?s'"
      unfolding stm_accepts_iff [OF t] stm_accepts_iff [OF t'] using k len by simp
  }
  {
    fix j and v :: uint8
    assume acc: "stm_accepts s"
      and h: "j \<le> k + 1 \<and> j \<noteq> k \<and> (1 \<le> j \<and> j < k \<longrightarrow> v \<noteq> 0x0D)
              \<and> (uint v - uint (?buf ! j)) mod 64 \<noteq> 0"
    let ?s' = "s\<lparr>g_ucaSTM_RXBuffer := ?buf[j := v]\<rparr>"
    have t': "terminator_at (g_ucaSTM_RXBuffer ?s') k"
      using t h by (auto simp: terminator_at_def nth_list_update list_all_iff)
    have jl: "j < length (take (k + 2) ?buf)" using h k len by simp
    have sum': "byte_sum (take (k + 2) (?buf[j := v])) = byte_sum (take (k + 2) ?buf) - uint (?buf ! j) + uint v"
      using byte_sum_update [OF jl, of v] jl by (simp add: take_update_swap)
    have same: "?buf[j := v] ! (k + 2) = ?buf ! (k + 2)" using h by simp
    let ?a = "byte_sum (take (k + 2) ?buf)"
    let ?d = "uint v - uint (?buf ! j)"
    have ne: "(?a + ?d) mod 64 \<noteq> ?a mod 64"
    proof
      assume "(?a + ?d) mod 64 = ?a mod 64"
      then have "(?a + ?d - ?a) mod 64 = 0" by (metis mod_eq_0_iff_dvd mod_eq_dvd_iff)
      with h show False by simp
    qed
    have e: "byte_sum (take (k + 2) (?buf[j := v])) = ?a + ?d"
      unfolding sum' by simp
    have "byte_sum (take (k + 2) (?buf[j := v])) mod 64 \<noteq> ?a mod 64"
      unfolding e by (rule ne)
    with acc show "\<not> stm_accepts ?s'"
      unfolding stm_accepts_iff [OF t] stm_accepts_iff [OF t'] using same by simp
  }
qed

text \<open>
  The line "1", carriage return, type byte \<open>x\<close>, checksum byte \<open>V\<close>; the same line with
  its first byte changed by 64; and a buffer whose carriage return stands at index 0.
\<close>

definition stm_line_1 :: stm_state where
  "stm_line_1 = stm_with ([0x31, 0x0D, 0x78, 0x56] @ replicate 16 0xFF)"

definition stm_line_q :: stm_state where
  "stm_line_q = stm_with ([0x71, 0x0D, 0x78, 0x56] @ replicate 16 0xFF)"

definition stm_cr_first :: stm_state where
  "stm_cr_first = stm_with ([0x0D, 0x78, 0x25] @ replicate 17 0xFF)"

theorem cSTM_Test_Checksum_accepts_witness:
  "stm_accepts stm_line_1
   \<and> \<not> stm_accepts (stm_line_1\<lparr>g_ucaSTM_RXBuffer := (g_ucaSTM_RXBuffer stm_line_1)[3 := 0x57]\<rparr>)
   \<and> \<not> stm_accepts (stm_line_1\<lparr>g_ucaSTM_RXBuffer := (g_ucaSTM_RXBuffer stm_line_1)[0 := 0x32]\<rparr>)"
proof -
  have t: "terminator_at (g_ucaSTM_RXBuffer stm_line_1) 1" by code_simp
  have c: "uint (g_ucaSTM_RXBuffer stm_line_1 ! (1 + 2))
             = byte_sum (take (1 + 2) (g_ucaSTM_RXBuffer stm_line_1)) mod 64 + 32"
    by code_simp
  have v: "(0x57 :: uint8) \<noteq> g_ucaSTM_RXBuffer stm_line_1 ! (1 + 2)" by code_simp
  have m: "(0 :: nat) \<le> 1 + 1 \<and> (0 :: nat) \<noteq> 1 \<and> (1 \<le> (0 :: nat) \<and> (0 :: nat) < 1 \<longrightarrow> (0x32 :: uint8) \<noteq> 0x0D)
           \<and> (uint (0x32 :: uint8) - uint (g_ucaSTM_RXBuffer stm_line_1 ! 0)) mod 64 \<noteq> 0"
    by code_simp
  from cSTM_Test_Checksum_accepts [OF t] have
    a1: "stm_accepts stm_line_1 \<longleftrightarrow> uint (g_ucaSTM_RXBuffer stm_line_1 ! (1 + 2))
           = byte_sum (take (1 + 2) (g_ucaSTM_RXBuffer stm_line_1)) mod 64 + 32"
    and a2: "stm_accepts stm_line_1 \<longrightarrow>
            (\<forall>v. v \<noteq> g_ucaSTM_RXBuffer stm_line_1 ! (1 + 2)
               \<longrightarrow> \<not> stm_accepts (stm_line_1\<lparr>g_ucaSTM_RXBuffer := (g_ucaSTM_RXBuffer stm_line_1)[1 + 2 := v]\<rparr>))"
    and a3: "stm_accepts stm_line_1 \<longrightarrow>
            (\<forall>j v. j \<le> 1 + 1 \<and> j \<noteq> 1 \<and> (1 \<le> j \<and> j < 1 \<longrightarrow> v \<noteq> 0x0D)
                   \<and> (uint v - uint (g_ucaSTM_RXBuffer stm_line_1 ! j)) mod 64 \<noteq> 0
               \<longrightarrow> \<not> stm_accepts (stm_line_1\<lparr>g_ucaSTM_RXBuffer := (g_ucaSTM_RXBuffer stm_line_1)[j := v]\<rparr>))"
    by blast+
  from a1 c have acc: "stm_accepts stm_line_1" by simp
  from a2 acc v have r1:
    "\<not> stm_accepts (stm_line_1\<lparr>g_ucaSTM_RXBuffer := (g_ucaSTM_RXBuffer stm_line_1)[1 + 2 := 0x57]\<rparr>)"
    by blast
  from a3 acc m have r2:
    "\<not> stm_accepts (stm_line_1\<lparr>g_ucaSTM_RXBuffer := (g_ucaSTM_RXBuffer stm_line_1)[0 := 0x32]\<rparr>)"
    by blast
  have e: "(1 :: nat) + 2 = 3" by simp
  from acc r1 [unfolded e] r2 show ?thesis by blast
qed

text \<open>
  C5 as stated fails in two ways. The accepted line "1\<dots>" stays accepted when its first
  byte, one of the summed bytes, is changed from 0x31 to 0x71. And a buffer whose first
  carriage return stands at index 0, with the byte two positions behind it equal to the
  sum up to the type byte modulo 64 plus 32, is not accepted: the search passes over
  index 0 and leaves the array.
\<close>

theorem cSTM_Test_Checksum_counterexample:
  "stm_accepts stm_line_1 \<and> stm_accepts stm_line_q
   \<and> g_ucaSTM_RXBuffer stm_line_q = (g_ucaSTM_RXBuffer stm_line_1)[0 := 0x71]
   \<and> g_ucaSTM_RXBuffer stm_cr_first ! 0 = 0x0D
   \<and> uint (g_ucaSTM_RXBuffer stm_cr_first ! 2)
        = byte_sum (take 2 (g_ucaSTM_RXBuffer stm_cr_first)) mod 64 + 32
   \<and> cSTM_Test_Checksum stm_cr_first = Inl OutOfBounds"
  by code_simp

subsection \<open>Parsing a sensor line\<close>

lemma asc_three_fields:
  "asc ''1234 0 567'' = [0x31, 0x32, 0x33, 0x34, 0x20, 0x30, 0x20, 0x35, 0x36, 0x37]"
  by (simp add: asc_def)

lemma asc_two_fields: "asc ''1234 567'' = [0x31, 0x32, 0x33, 0x34, 0x20, 0x35, 0x36, 0x37]"
  by (simp add: asc_def)

lemmas stm_loops = type_search.simps temp_loop.simps soil_loop.simps stm_rd_def
  RX_BUFFER_SIZE_STM_def temp_add_def digit_term_def

lemma read_three_fields:
  assumes r: "length rest = 8"
  shows "cSTM_ReadValue (s\<lparr>g_ucaSTM_RXBuffer := asc ''1234 0 567'' @ [0x0D, FIVETM] @ rest\<rparr>) =
         Inr (s\<lparr>g_ucaSTM_RXBuffer := asc ''1234 0 567'' @ [0x0D, FIVETM] @ rest,
                g_ucSTM_RXBufferIndex := 255, nSTM_Temperature := 567, lSTM_Soil := 1234\<rparr>)"
proof -
  let ?buf = "[0x31, 0x32, 0x33, 0x34, 0x20, 0x30, 0x20, 0x35, 0x36, 0x37, 0x0D, 0x78] @ rest"
  have ts: "type_search ?buf 0 = Inr (10, Some 0x78)"
    using r by (simp add: stm_loops)
  have tl: "temp_loop ?buf 10 0 1 = Inr (6, 567, 1000)"
    using r by (simp add: stm_loops)
  have sl: "soil_loop ?buf 4 0 1 = Inr (255, 1234, 10000)"
    using r by (simp add: stm_loops)
  show ?thesis
    using ts tl sl by (simp add: cSTM_ReadValue_def asc_three_fields Let_def FIVETM_def)
qed

lemma read_two_fields:
  assumes r: "length rest = 10"
  shows "cSTM_ReadValue (s\<lparr>g_ucaSTM_RXBuffer := asc ''1234 567'' @ [0x0D, FIVETM] @ rest\<rparr>) =
         Inr (s\<lparr>g_ucaSTM_RXBuffer := asc ''1234 567'' @ [0x0D, FIVETM] @ rest,
                g_ucSTM_RXBufferIndex := 255, nSTM_Temperature := 567, lSTM_Soil := 12\<rparr>)"
proof -
  let ?buf = "[0x31, 0x32, 0x33, 0x34, 0x20, 0x35, 0x36, 0x37, 0x0D, 0x78] @ rest"
  have ts: "type_search ?buf 0 = Inr (8, Some 0x78)"
    using r by (simp add: stm_loops)
  have tl: "temp_loop ?buf 8 0 1 = Inr (4, 567, 1000)"
    using r by (simp add: stm_loops)
  have sl: "soil_loop ?buf 2 0 1 = Inr (255, 12, 100)"
    using r by (simp add: stm_loops)
  show ?thesis
    using ts tl sl by (simp add: cSTM_ReadValue_def asc_two_fields Let_def FIVETM_def)
qed

text \<open>
  C6, as the code has it. After the temperature \<open>cSTM_ReadValue\<close> steps two characters
  back before it reads the moisture, which fits the three-field line of the 5TM sensor:
  for a buffer holding "1234 0 567", carriage return and type byte \<open>x\<close>, it stores
  moisture 1234 and temperature 567. For the two-field line "1234 567" it stores
  temperature 567 and moisture 12.
\<close>

theorem cSTM_ReadValue_model_A:
  assumes "length rest3 = 8" and "length rest2 = 10"
  shows "cSTM_ReadValue (s\<lparr>g_ucaSTM_RXBuffer := asc ''1234 0 567'' @ [0x0D, FIVETM] @ rest3\<rparr>) =
           Inr (s\<lparr>g_ucaSTM_RXBuffer := asc ''1234 0 567'' @ [0x0D, FIVETM] @ rest3,
                  g_ucSTM_RXBufferIndex := 255, nSTM_Temperature := 567, lSTM_Soil := 1234\<rparr>)
       \<and> cSTM_ReadValue (s\<lparr>g_ucaSTM_RXBuffer := asc ''1234 567'' @ [0x0D, FIVETM] @ rest2\<rparr>) =
           Inr (s\<lparr>g_ucaSTM_RXBuffer := asc ''1234 567'' @ [0x0D, FIVETM] @ rest2,
                  g_ucSTM_RXBufferIndex := 255, nSTM_Temperature := 567, lSTM_Soil := 12\<rparr>)"
  by (intro conjI read_three_fields read_two_fields assms)

theorem cSTM_ReadValue_model_A_witness:
  "cSTM_ReadValue (stm_with (asc ''1234 0 567'' @ [0x0D, FIVETM] @ replicate 8 0xFF)) =
     Inr ((stm_with (asc ''1234 0 567'' @ [0x0D, FIVETM] @ replicate 8 0xFF))
            \<lparr>g_ucSTM_RXBufferIndex := 255, nSTM_Temperature := 567, lSTM_Soil := 1234\<rparr>)"
proof -
  have a: "length (replicate 8 (0xFF :: uint8)) = 8" and b: "length (replicate 10 (0xFF :: uint8)) = 10"
    by simp_all
  from cSTM_ReadValue_model_A [OF a b, of "stm_with []"] show ?thesis
    by (simp add: stm_with_def)
qed

text \<open>
  C6 as stated fails: on the line "1234 567", carriage return, \<open>x\<close>, the stored
  temperature is 567 and the stored moisture is 12, not 1234.
\<close>

theorem cSTM_ReadValue_counterexample:
  "map_sum id (\<lambda>t. (nSTM_Temperature t, lSTM_Soil t))
     (cSTM_ReadValue (stm_with (asc ''1234 567'' @ [0x0D, FIVETM] @ replicate 10 0xFF)))
   = Inr (567, 12)"
  by code_simp

section \<open>Properties of main.c\<close>

lemma fetch_copy_loop_ok:
  "\<lbrakk>unat (m_ucLength r) \<le> MAXDATALEN; length (m_ucaData r) = MAXDATALEN;
    p + (unat (m_ucLength r) - i) \<le> length buf; i \<le> unat (m_ucLength r)\<rbrakk>
   \<Longrightarrow> fetch_copy_loop r i buf p =
       Inr (take p buf @ drop i (take (unat (m_ucLength r)) (m_ucaData r))
              @ drop (p + (unat (m_ucLength r) - i)) buf,
            p + (unat (m_ucLength r) - i))"
proof (induction r i buf p rule: fetch_copy_loop.induct)
  case (1 r i buf p)
  let ?n = "unat (m_ucLength r)"
  let ?d = "m_ucaData r"
  show ?case
  proof (cases "i < ?n")
    case False
    with 1 have "i = ?n" by simp
    then show ?thesis by (subst fetch_copy_loop.simps) simp
  next
    case True
    with 1 have a: "i < MAXDATALEN" "i < length ?d" "p < length buf" by simp_all
    have ih: "fetch_copy_loop r (i + 1) (buf[p := ?d ! i]) (p + 1) =
       Inr (take (p + 1) (buf[p := ?d ! i]) @ drop (i + 1) (take ?n ?d)
              @ drop (p + 1 + (?n - (i + 1))) (buf[p := ?d ! i]),
            p + 1 + (?n - (i + 1)))"
      using True a 1 by (intro "1.IH") simp_all
    have e1: "take (p + 1) (buf[p := ?d ! i]) = take p buf @ [?d ! i]"
      using a by (simp add: take_Suc_conv_app_nth)
    have e2: "drop i (take ?n ?d) = ?d ! i # drop (i + 1) (take ?n ?d)"
      using a True by (simp add: Cons_nth_drop_Suc [symmetric])
    have e3: "p + 1 + (?n - (i + 1)) = p + (?n - i)" using True by simp
    have e4: "drop (p + (?n - i)) (buf[p := ?d ! i]) = drop (p + (?n - i)) buf"
      using True by simp
    show ?thesis
      by (subst fetch_copy_loop.simps) (simp add: True a ih [unfolded e1 e3 e4] e2 del: One_nat_def)
  qed
qed

lemma fetch_loop_skip:
  assumes "i < NUMDATGEN" "i < length S" "m_ucFlags (S ! i) AND F_NEWDATA = 0"
  shows "fetch_loop S i buf p n = fetch_loop S (i + 1) buf p n"
  using assms by (subst fetch_loop.simps) simp

lemma fetch_loop_take:
  assumes i: "i < NUMDATGEN" "i < length S" and f: "m_ucFlags (S ! i) AND F_NEWDATA \<noteq> 0"
    and wf: "unat (m_ucLength (S ! i)) \<le> MAXDATALEN" "length (m_ucaData (S ! i)) = MAXDATALEN"
    and room: "p + 2 + unat (m_ucLength (S ! i)) \<le> length buf"
  shows "fetch_loop S i buf p n =
         fetch_loop S (i + 1)
           (take p buf @ [of_nat i, m_ucLength (S ! i)]
              @ take (unat (m_ucLength (S ! i))) (m_ucaData (S ! i))
              @ drop (p + 2 + unat (m_ucLength (S ! i))) buf)
           (p + 2 + unat (m_ucLength (S ! i))) (n + (m_ucLength (S ! i) + 2))"
proof -
  let ?r = "S ! i"
  let ?b = "buf[p := of_nat i, p + 1 := m_ucLength ?r]"
  from room have pl: "p + 1 < length buf" by simp
  have c: "fetch_copy_loop ?r 0 ?b (p + 2) =
       Inr (take (p + 2) ?b @ drop 0 (take (unat (m_ucLength ?r)) (m_ucaData ?r))
              @ drop (p + 2 + (unat (m_ucLength ?r) - 0)) ?b,
            p + 2 + (unat (m_ucLength ?r) - 0))"
    using wf room by (intro fetch_copy_loop_ok) simp_all
  have t: "take (p + 2) ?b = take p buf @ [of_nat i, m_ucLength ?r]"
  proof -
    have "take (Suc (Suc p)) ?b = take (Suc p) ?b @ [?b ! Suc p]"
      using pl by (intro take_Suc_conv_app_nth) simp
    also have "take (Suc p) ?b = take p ?b @ [?b ! p]"
      using pl by (intro take_Suc_conv_app_nth) simp
    finally show ?thesis using pl by simp
  qed
  have d: "drop (p + 2 + unat (m_ucLength ?r)) ?b = drop (p + 2 + unat (m_ucLength ?r)) buf"
    by simp
  from c have c': "fetch_copy_loop ?r 0 ?b (p + 2) =
       Inr (take p buf @ [of_nat i, m_ucLength ?r] @ take (unat (m_ucLength ?r)) (m_ucaData ?r)
              @ drop (p + 2 + unat (m_ucLength ?r)) buf,
            p + 2 + unat (m_ucLength ?r))"
    unfolding t by (simp only: d drop_0 diff_zero append_assoc)
  show ?thesis
    using i f pl c' by (subst fetch_loop.simps) (simp add: Let_def)
qed

lemma fetch_loop_end: "fetch_loop S NUMDATGEN buf p n = Inr (buf, p, n)"
  by (subst fetch_loop.simps) simp

lemma length_slot_group: "slot_ok (S ! i) \<Longrightarrow> length (slot_group S i) = 2 + unat (m_ucLength (S ! i))"
  by (simp add: slot_group_def slot_ok_def)

text \<open>
  C3, as the code has it. For every report table in which exactly the slots 2 and 5 have
  the new-data flag set, \<open>ucMain_FetchData\<close> writes the group of slot 2 and then the
  group of slot 5 (id, length, data bytes) at the start of the buffer and returns their
  total length. It leaves the report table as it was, flags included, so a second drain
  returns the same two groups and the same length.
\<close>

theorem ucMain_FetchData_slots_2_5:
  assumes len: "length S = NUMDATGEN"
    and new: "new_slots S = [2, 5]"
    and ok: "slot_ok (S ! 2)" "slot_ok (S ! 5)"
    and dl: "length dst = 60"
  shows "ucMain_FetchData S dst =
           Inr (m_ucLength (S ! 2) + m_ucLength (S ! 5) + 4,
                slot_group S 2 @ slot_group S 5
                  @ drop (length (slot_group S 2 @ slot_group S 5)) dst,
                S)
         \<and> unat (m_ucLength (S ! 2) + m_ucLength (S ! 5) + 4) = length (slot_group S 2 @ slot_group S 5)"
proof -
  let ?l2 = "m_ucLength (S ! 2)" and ?l5 = "m_ucLength (S ! 5)"
  let ?g2 = "slot_group S 2" and ?g5 = "slot_group S 5"
  from len have n: "length S = 9" by (simp add: NUMDATGEN_def)
  have fl: "(m_ucFlags (S ! i) AND F_NEWDATA \<noteq> 0) = (i = 2 \<or> i = 5)" if "i < 9" for i
  proof -
    have "i \<in> set (new_slots S) \<longleftrightarrow> m_ucFlags (S ! i) AND F_NEWDATA \<noteq> 0"
      using that n by (simp add: new_slots_def)
    then show ?thesis unfolding new by auto
  qed
  from ok have b2: "unat ?l2 \<le> 4" and b5: "unat ?l5 \<le> 4"
    by (simp_all add: slot_ok_def MAXDATALEN_def)
  have lg2: "length ?g2 = 2 + unat ?l2" and lg5: "length ?g5 = 2 + unat ?l5"
    using ok by (simp_all add: length_slot_group)
  have skip: "fetch_loop S i buf p k = fetch_loop S j buf p k"
    if "i < 9" "i \<noteq> 2" "i \<noteq> 5" "j = i + 1" for i j buf p k
    using fetch_loop_skip [of i S buf p k] fl [of i] n that by (simp add: NUMDATGEN_def)
  let ?b2 = "?g2 @ drop (2 + unat ?l2) dst"
  let ?p2 = "2 + unat ?l2"
  let ?n2 = "?l2 + 2"
  let ?p5 = "2 + unat ?l2 + 2 + unat ?l5"
  let ?n5 = "?l2 + 2 + (?l5 + 2)"
  let ?b5 = "?g2 @ ?g5 @ drop ?p5 dst"
  have lb2: "length ?b2 = 60" using lg2 dl b2 by simp
  have tk: "take ?p2 ?b2 = ?g2" using lg2 by simp
  have dr: "drop ?p5 ?b2 = drop ?p5 dst" using lg2 by (simp add: add.commute)
  have s2: "fetch_loop S 2 dst 0 0 = fetch_loop S 3 ?b2 ?p2 ?n2"
    using fetch_loop_take [of 2 S 0 dst 0] fl [of 2] n ok b2 dl
    by (simp add: NUMDATGEN_def slot_ok_def slot_group_def)
  have s5: "fetch_loop S 5 ?b2 ?p2 ?n2 = fetch_loop S 6 ?b5 ?p5 ?n5"
  proof -
    have "fetch_loop S 5 ?b2 ?p2 ?n2 =
         fetch_loop S (5 + 1)
           (take ?p2 ?b2 @ [of_nat 5, ?l5] @ take (unat ?l5) (m_ucaData (S ! 5))
              @ drop (?p2 + 2 + unat ?l5) ?b2)
           (?p2 + 2 + unat ?l5) (?n2 + (?l5 + 2))"
      using fl [of 5] n ok b5 lb2 b2
      by (intro fetch_loop_take) (simp_all add: NUMDATGEN_def slot_ok_def)
    then show ?thesis unfolding tk dr by (simp add: slot_group_def)
  qed
  have "fetch_loop S 0 dst 0 0 = fetch_loop S 1 dst 0 0" by (rule skip) simp_all
  also have "\<dots> = fetch_loop S 2 dst 0 0" by (rule skip) simp_all
  also note s2
  also have "fetch_loop S 3 ?b2 ?p2 ?n2 = fetch_loop S 4 ?b2 ?p2 ?n2" by (rule skip) simp_all
  also have "\<dots> = fetch_loop S 5 ?b2 ?p2 ?n2" by (rule skip) simp_all
  also note s5
  also have "fetch_loop S 6 ?b5 ?p5 ?n5 = fetch_loop S 7 ?b5 ?p5 ?n5" by (rule skip) simp_all
  also have "\<dots> = fetch_loop S 8 ?b5 ?p5 ?n5" by (rule skip) simp_all
  also have "\<dots> = fetch_loop S 9 ?b5 ?p5 ?n5" by (rule skip) simp_all
  also have "\<dots> = Inr (?b5, ?p5, ?n5)"
    using fetch_loop_end [of S ?b5 ?p5 ?n5] by (simp add: NUMDATGEN_def)
  finally have r: "fetch_loop S 0 dst 0 0 = Inr (?b5, ?p5, ?n5)" .
  have e1: "?n5 = ?l2 + ?l5 + 4" by simp
  have e2: "?p5 = length (?g2 @ ?g5)" using lg2 lg5 by simp
  have u: "unat (?l2 + ?l5 + 4) = unat ?l2 + unat ?l5 + 4"
    using b2 b5 by (simp add: unat_word_ariths)
  have "ucMain_FetchData S dst = Inr (?n5, ?b5, S)"
    by (simp only: ucMain_FetchData_def r sum.case prod.case)
  then have "ucMain_FetchData S dst = Inr (?l2 + ?l5 + 4, ?g2 @ ?g5 @ drop (length (?g2 @ ?g5)) dst, S)"
    unfolding e1 e2 .
  moreover have "unat (?l2 + ?l5 + 4) = length (?g2 @ ?g5)" using u lg2 lg5 by simp
  ultimately show ?thesis by (rule conjI)
qed

theorem ucMain_FetchData_slots_2_5_witness:
  "ucMain_FetchData S_Report_2_5 (replicate 60 0) =
     Inr (7, [0x02, 0x02, 0x12, 0x34, 0x05, 0x01, 0xAB] @ replicate 53 0, S_Report_2_5)"
proof -
  have a: "length S_Report_2_5 = NUMDATGEN" by code_simp
  have b: "new_slots S_Report_2_5 = [2, 5]" by code_simp
  have c: "slot_ok (S_Report_2_5 ! 2)" "slot_ok (S_Report_2_5 ! 5)" by code_simp+
  have d: "length (replicate 60 (0 :: uint8)) = 60" by simp
  have e: "m_ucLength (S_Report_2_5 ! 2) + m_ucLength (S_Report_2_5 ! 5) + 4 = 7" by code_simp
  have f: "slot_group S_Report_2_5 2 @ slot_group S_Report_2_5 5
             @ drop (length (slot_group S_Report_2_5 2 @ slot_group S_Report_2_5 5)) (replicate 60 0)
           = [0x02, 0x02, 0x12, 0x34, 0x05, 0x01, 0xAB] @ replicate 53 0"
    by code_simp
  from ucMain_FetchData_slots_2_5 [OF a b c d] show ?thesis
    unfolding e f by simp
qed

text \<open>
  C3 as stated fails: after the drain both new-data flags are still set, and a second
  drain returns length 7 again, not 0.
\<close>

theorem ucMain_FetchData_counterexample:
  "ucMain_FetchData S_Report_2_5 (replicate 60 0) =
     Inr (7, [0x02, 0x02, 0x12, 0x34, 0x05, 0x01, 0xAB] @ replicate 53 0, S_Report_2_5)
   \<and> new_slots S_Report_2_5 = [2, 5]
   \<and> ucMain_FetchData S_Report_2_5 ([0x02, 0x02, 0x12, 0x34, 0x05, 0x01, 0xAB] @ replicate 53 0) =
     Inr (7, [0x02, 0x02, 0x12, 0x34, 0x05, 0x01, 0xAB] @ replicate 53 0, S_Report_2_5)"
  by code_simp

section \<open>Properties of core.c\<close>

lemma switch_default: "typ \<notin> dispatched_types \<Longrightarrow> vCORE_Run_switch typ = CaseDefault"
  by (simp add: vCORE_Run_switch_def dispatched_types_def)

lemma shutdown_bit_set: "(x OR SHUTDOWN_BIT) AND SHUTDOWN_BIT \<noteq> 0"
  by (simp add: SHUTDOWN_BIT_def bit.conj_disj_distrib2)

text \<open>
  C9: for every received message whose type byte has no case in the switch, the dispatch
  hands \<open>vCOMM_SendMessage\<close> a message of type \<open>REPORT_ERROR\<close> whose length field, and
  the length passed along, is the header size; the shutdown bit of its flags byte is set
  exactly when the shutdown predicate returned 1. Nothing behind the header is written.
\<close>

theorem vCORE_Run_dispatch_unknown_type:
  assumes len: "length buf = 64" and unk: "buf ! MSG_TYP_IDX \<notin> dispatched_types"
  shows "\<exists>reply. vCORE_Run_dispatch cases shutdown sendmsg app buf e = sendmsg reply SP_HEADERSIZE e
           \<and> length reply = 64
           \<and> reply ! MSG_TYP_IDX = REPORT_ERROR
           \<and> reply ! MSG_LEN_IDX = SP_HEADERSIZE
           \<and> reply ! MSG_VER_IDX = SP_DATAMESSAGE_VERSION
           \<and> (reply ! MSG_FLAGS_IDX AND SHUTDOWN_BIT \<noteq> 0 \<longleftrightarrow> shutdown app = 1)
           \<and> drop MSG_PAYLD_IDX reply = drop MSG_PAYLD_IDX buf"
proof -
  let ?r = "vCORE_Run_default (shutdown app) buf"
  have l: "length ?r = 64" using len by (simp add: vCORE_Run_default_def Let_def)
  have t: "?r ! MSG_TYP_IDX = REPORT_ERROR" "?r ! MSG_LEN_IDX = SP_HEADERSIZE"
    "?r ! MSG_VER_IDX = SP_DATAMESSAGE_VERSION"
    using len
    by (simp_all add: vCORE_Run_default_def Let_def MSG_TYP_IDX_def MSG_LEN_IDX_def MSG_VER_IDX_def
        MSG_FLAGS_IDX_def)
  have f: "?r ! MSG_FLAGS_IDX AND SHUTDOWN_BIT \<noteq> 0 \<longleftrightarrow> shutdown app = 1"
    using len
    by (simp add: vCORE_Run_default_def Let_def MSG_TYP_IDX_def MSG_LEN_IDX_def MSG_VER_IDX_def
        MSG_FLAGS_IDX_def shutdown_bit_set SHUTDOWN_BIT_def)
  have d: "drop MSG_PAYLD_IDX ?r = drop MSG_PAYLD_IDX buf"
    by (simp add: vCORE_Run_default_def Let_def MSG_TYP_IDX_def MSG_LEN_IDX_def MSG_VER_IDX_def
        MSG_FLAGS_IDX_def MSG_PAYLD_IDX_def)
  have "vCORE_Run_dispatch cases shutdown sendmsg app buf e = sendmsg ?r (?r ! MSG_LEN_IDX) e"
    using len switch_default [OF unk]
    by (simp add: vCORE_Run_dispatch_def MAXMSGLEN_def Let_def)
  with l t f d show ?thesis by auto
qed

text \<open>A received message of the type \<open>PROGRAM_CODE\<close>, which the switch has no case for.\<close>

definition msg_program_code :: "uint8 list" where
  "msg_program_code = [PROGRAM_CODE, 0x04, 0x78, 0x00] @ replicate 60 0"

theorem vCORE_Run_dispatch_unknown_type_witness:
  "\<exists>reply. vCORE_Run_dispatch (\<lambda>c app buf e. Inr (buf, e)) ucMain_ShutdownAllowed
               (vCOMM_SendMessage (crc16 0x1021 0xFFFF) sim_sendbyte) () msg_program_code ([], [])
             = vCOMM_SendMessage (crc16 0x1021 0xFFFF) sim_sendbyte reply SP_HEADERSIZE ([], [])
           \<and> length reply = 64
           \<and> reply ! MSG_TYP_IDX = REPORT_ERROR
           \<and> reply ! MSG_LEN_IDX = SP_HEADERSIZE
           \<and> reply ! MSG_VER_IDX = SP_DATAMESSAGE_VERSION
           \<and> (reply ! MSG_FLAGS_IDX AND SHUTDOWN_BIT \<noteq> 0 \<longleftrightarrow> ucMain_ShutdownAllowed () = 1)
           \<and> drop MSG_PAYLD_IDX reply = drop MSG_PAYLD_IDX msg_program_code
           \<and> sent_bytes (vCOMM_SendMessage (crc16 0x1021 0xFFFF) sim_sendbyte reply SP_HEADERSIZE ([], []))
               = Some [0x08, 0x04, 0x78, 0x01, 0x4C, 0x12]"
proof -
  have a: "length msg_program_code = 64" by code_simp
  have b: "msg_program_code ! MSG_TYP_IDX \<notin> dispatched_types" by code_simp
  have c: "sent_bytes (vCORE_Run_dispatch (\<lambda>c app buf e. Inr (buf, e)) ucMain_ShutdownAllowed
               (vCOMM_SendMessage (crc16 0x1021 0xFFFF) sim_sendbyte) () msg_program_code ([], []))
           = Some [0x08, 0x04, 0x78, 0x01, 0x4C, 0x12]"
    by code_simp
  from vCORE_Run_dispatch_unknown_type [OF a b,
      of "\<lambda>c app buf e. Inr (buf, e)" ucMain_ShutdownAllowed
         "vCOMM_SendMessage (crc16 0x1021 0xFFFF) sim_sendbyte" "()" "([], [])"]
  obtain reply where
    r: "vCORE_Run_dispatch (\<lambda>c app buf e. Inr (buf, e)) ucMain_ShutdownAllowed
               (vCOMM_SendMessage (crc16 0x1021 0xFFFF) sim_sendbyte) () msg_program_code ([], [])
             = vCOMM_SendMessage (crc16 0x1021 0xFFFF) sim_sendbyte reply SP_HEADERSIZE ([], [])"
    and p: "length reply = 64" "reply ! MSG_TYP_IDX = REPORT_ERROR" "reply ! MSG_LEN_IDX = SP_HEADERSIZE"
      "reply ! MSG_VER_IDX = SP_DATAMESSAGE_VERSION"
      "reply ! MSG_FLAGS_IDX AND SHUTDOWN_BIT \<noteq> 0 \<longleftrightarrow> ucMain_ShutdownAllowed () = 1"
      "drop MSG_PAYLD_IDX reply = drop MSG_PAYLD_IDX msg_program_code"
    by blast
  from c have "sent_bytes (vCOMM_SendMessage (crc16 0x1021 0xFFFF) sim_sendbyte reply SP_HEADERSIZE ([], []))
               = Some [0x08, 0x04, 0x78, 0x01, 0x4C, 0x12]"
    unfolding r .
  with r p show ?thesis by blast
qed

end
